theory Spec2Isabelle
  imports Main "HOL-Library.Sublist" "HOL-Library.Multiset"
begin

section \<open>Byte buffers\<close>

text \<open>
  A Node \<open>Buffer\<close> is a finite sequence of bytes; a \<open>char\<close> of HOL is one byte, so a
  buffer is a \<open>string\<close>.  Offsets are JavaScript numbers that may be \<open>-1\<close>, hence \<open>int\<close>.
  A JavaScript string is a sequence of UTF-16 code units, which are numbers
  (\<open>jsstring\<close>); \<open>ascii\<close> is the JavaScript string of an ASCII literal.
\<close>

type_synonym buffer = string

type_synonym jsstring = "int list"

definition ascii :: "string \<Rightarrow> jsstring" where
  "ascii s = map of_char s"

datatype error = TypeError | RangeError

definition CR :: char where "CR = CHR 0x0D"
definition LF :: char where "LF = CHR 0x0A"
definition DQ :: char where "DQ = CHR 0x22"

text \<open>\<open>const EOL = Buffer.from('\r\n')\<close> and \<open>const SEP = Buffer.from('--')\<close> (http-form.mjs).\<close>

definition EOL :: buffer where "EOL = [CR, LF]"
definition SEP :: buffer where "SEP = ''--''"

text \<open>
  \<open>buf.indexOf(value, byteOffset)\<close> for a byte-sequence \<open>value\<close>: the offset is normalised
  as Node does (a negative offset counts from the end; an offset that leaves no room for
  a non-empty value gives \<open>-1\<close>; an empty value is found at the normalised offset), then
  the first position at or after it where \<open>value\<close> occurs is returned, or \<open>-1\<close>.
\<close>

fun find_from :: "buffer \<Rightarrow> buffer \<Rightarrow> nat \<Rightarrow> int" where
  "find_from val [] i = -1"
| "find_from val (b # bs) i =
     (if take (length val) (b # bs) = val then int i else find_from val bs (Suc i))"

definition indexOf :: "buffer \<Rightarrow> buffer \<Rightarrow> int \<Rightarrow> int" where
  "indexOf buf val byteOffset =
     (let len = int (length buf); n = int (length val);
          opt = (if byteOffset < 0
                 then (if byteOffset + len \<ge> 0 then len + byteOffset else 0)
                 else if byteOffset + n \<le> len then byteOffset
                 else if n = 0 then len else -1)
      in if n = 0 then opt
         else if opt \<le> -1 then -1
         else find_from val (drop (nat opt) buf) (nat opt))"

text \<open>\<open>buf.subarray(begin, end)\<close>: both indices are clamped into the buffer, a negative
  one counting from the end; \<open>buf.subarray(begin)\<close> is \<open>subarray buf begin (length buf)\<close>.\<close>

definition subarray :: "buffer \<Rightarrow> int \<Rightarrow> int \<Rightarrow> buffer" where
  "subarray buf begin fin =
     (let len = int (length buf);
          b = (if begin < 0 then max (len + begin) 0 else min begin len);
          e = (if fin < 0 then max (len + fin) 0 else min fin len)
      in take (nat (e - b)) (drop (nat b) buf))"

text \<open>
  Decoding UTF-8, as \<open>buf.toString\<close> does when no encoding is given: a well-formed
  sequence of one to four bytes gives its code point (overlong forms, surrogates and
  values above U+10FFFF are not well formed: the second byte of a sequence that starts
  with E0, ED, F0 or F4 has a narrower range).  A byte that cannot start a sequence gives U+FFFD; a sequence that
  is broken off, by a byte that cannot continue it or by the end of the input, gives one
  U+FFFD, and decoding continues at the byte that broke it off.  No byte-order mark is
  removed.
\<close>

definition continuation :: "int \<Rightarrow> bool" where
  "continuation b = (0x80 \<le> b \<and> b \<le> 0xBF)"

fun utf8_decode :: "int list \<Rightarrow> int list" where
  "utf8_decode [] = []"
| "utf8_decode (b # bs) =
     (if b < 0x80 then b # utf8_decode bs
      else if 0xC2 \<le> b \<and> b \<le> 0xDF then
        (case bs of
           [] \<Rightarrow> [0xFFFD]
         | c # cs \<Rightarrow>
             if continuation c then ((b - 0xC0) * 64 + (c - 0x80)) # utf8_decode cs
             else 0xFFFD # utf8_decode bs)
      else if 0xE0 \<le> b \<and> b \<le> 0xEF then
        (case bs of
           [] \<Rightarrow> [0xFFFD]
         | c # cs \<Rightarrow>
             if (if b = 0xE0 then 0xA0 else 0x80) \<le> c \<and> c \<le> (if b = 0xED then 0x9F else 0xBF)
             then (case cs of
                     [] \<Rightarrow> [0xFFFD]
                   | d # ds \<Rightarrow>
                       if continuation d
                       then ((b - 0xE0) * 4096 + (c - 0x80) * 64 + (d - 0x80)) # utf8_decode ds
                       else 0xFFFD # utf8_decode cs)
             else 0xFFFD # utf8_decode bs)
      else if 0xF0 \<le> b \<and> b \<le> 0xF4 then
        (case bs of
           [] \<Rightarrow> [0xFFFD]
         | c # cs \<Rightarrow>
             if (if b = 0xF0 then 0x90 else 0x80) \<le> c \<and> c \<le> (if b = 0xF4 then 0x8F else 0xBF)
             then (case cs of
                     [] \<Rightarrow> [0xFFFD]
                   | d # ds \<Rightarrow>
                       if continuation d
                       then (case ds of
                               [] \<Rightarrow> [0xFFFD]
                             | e # es \<Rightarrow>
                                 if continuation e
                                 then ((b - 0xF0) * 262144 + (c - 0x80) * 4096
                                        + (d - 0x80) * 64 + (e - 0x80)) # utf8_decode es
                                 else 0xFFFD # utf8_decode ds)
                       else 0xFFFD # utf8_decode cs)
             else 0xFFFD # utf8_decode bs)
      else 0xFFFD # utf8_decode bs)"

text \<open>The code units of a sequence of code points: a code point from U+10000 on is a pair
  of surrogates.\<close>

fun utf16 :: "int list \<Rightarrow> jsstring" where
  "utf16 [] = []"
| "utf16 (c # cs) =
     (if c < 0x10000 then c # utf16 cs
      else (0xD800 + (c - 0x10000) div 1024) # (0xDC00 + (c - 0x10000) mod 1024) # utf16 cs)"

text \<open>\<open>buf.toString(undefined, start, end)\<close> with both bounds given: a start at or below 0 is
  0, a start at or beyond the length gives the empty string, an end beyond the length is
  the length, and an end at or below the start gives the empty string; otherwise the
  bytes from \<open>start\<close> up to \<open>end\<close> are decoded.\<close>

definition toString :: "buffer \<Rightarrow> int \<Rightarrow> int \<Rightarrow> jsstring" where
  "toString buf start fin =
     (let len = int (length buf) in
      if 0 < start \<and> len \<le> start then []
      else let s = (if start \<le> 0 then 0 else start);
               e = (if len < fin then len else fin)
           in if e \<le> s then []
              else utf16 (utf8_decode (map of_char (take (nat (e - s)) (drop (nat s) buf)))))"

text \<open>
  \<open>Buffer.from(string)\<close> encodes the string in UTF-8.  The string it is applied to comes
  from a request header, whose characters Node delivers as code units below 256 (the
  \<open>char\<close>s of a HOL string): a code unit below 128 is one byte, another one is two bytes.
\<close>

definition Buffer_from :: "string \<Rightarrow> buffer" where
  "Buffer_from s =
     concat (map (\<lambda>c. if (of_char c :: int) < 0x80 then [c]
                       else [char_of (0xC0 + (of_char c :: int) div 64),
                             char_of (0x80 + (of_char c :: int) mod 64)]) s)"

text \<open>\<open>SEP.compare(target, targetStart, targetEnd) === 0\<close>: Node validates the target
  offsets first and throws a RangeError when one is negative or \<open>targetEnd\<close> lies beyond
  the target; otherwise the result is 0 exactly when the addressed bytes of the target
  are the two bytes of \<open>SEP\<close>.\<close>

definition SEP_compare :: "buffer \<Rightarrow> int \<Rightarrow> int \<Rightarrow> error + bool" where
  "SEP_compare target targetStart targetEnd =
     (if targetStart < 0 \<or> targetEnd < 0 \<or> int (length target) < targetEnd then Inl RangeError
      else Inr (take (nat (targetEnd - targetStart)) (drop (nat targetStart) target) = SEP))"


section \<open>splitBuffer (util.mjs)\<close>

text \<open>
  \<open>class SplitResult { buf; start; end }\<close>: a view, made of a reference to the buffer and
  two indices.  \<open>toString\<close> decodes the referenced buffer between them.
\<close>

record SplitResult =
  sr_buf :: buffer
  sr_start :: int
  sr_end :: int

definition SplitResult_toString :: "SplitResult \<Rightarrow> jsstring" where
  "SplitResult_toString r = toString (sr_buf r) (sr_start r) (sr_end r)"

text \<open>
  \<open>function* splitBuffer(buf, sep, start = 0)\<close> is a generator.  A generator object is
  either suspended with the current value of \<open>start\<close> (before the loop test is evaluated)
  or has run to its end.  \<open>gen_next\<close> is one call of \<open>next()\<close>: it evaluates
  \<open>(end = buf.indexOf(sep, start)) !== -1\<close>; inside the loop it yields
  \<open>SplitResult(buf, start, end)\<close> and continues with \<open>start = end + sep.length\<close>; after
  the loop it yields \<open>SplitResult(buf, start, end)\<close> with the \<open>end\<close> that ended the loop.
  A finished generator answers \<open>{ value: undefined, done: true }\<close>, here \<open>None\<close>.
\<close>

datatype generator = Suspended buffer buffer int | Returned

definition splitBuffer :: "buffer \<Rightarrow> buffer \<Rightarrow> int \<Rightarrow> generator" where
  "splitBuffer buf sep start = Suspended buf sep start"

fun gen_next :: "generator \<Rightarrow> SplitResult option \<times> generator" where
  "gen_next (Suspended buf sep start) =
     (let e = indexOf buf sep start in
      if e \<noteq> -1
      then (Some \<lparr>sr_buf = buf, sr_start = start, sr_end = e\<rparr>,
            Suspended buf sep (e + int (length sep)))
      else (Some \<lparr>sr_buf = buf, sr_start = start, sr_end = e\<rparr>, Returned))"
| "gen_next Returned = (None, Returned)"

text \<open>The first \<open>n\<close> values a consumer obtains from the generator.\<close>

fun yields :: "nat \<Rightarrow> generator \<Rightarrow> SplitResult list" where
  "yields 0 g = []"
| "yields (Suc n) g =
     (case gen_next g of (None, g') \<Rightarrow> [] | (Some v, g') \<Rightarrow> v # yields n g')"


section \<open>The header patterns (http-form.mjs)\<close>

text \<open>
  The two regular expressions are applied to decoded lines, code unit by code unit (they
  have no \<open>u\<close> flag), and matched as a backtracking engine does.  \<open>exec\<close> tries the start
  positions from the left (\<open>exec_from\<close>).  A greedy \<open>X+\<close> over a character class first
  takes the longest run and gives characters back one at a time (\<open>greedy\<close>).  \<open>.\<close> is any
  code unit but a line terminator (LF, CR, U+2028, U+2029); \<open>\s\<close> is white space or a line
  terminator (TAB, LF, VT, FF, CR, SP, U+00A0, U+1680, U+2000 to U+200A, U+2028, U+2029,
  U+202F, U+205F, U+3000, U+FEFF); \<open>$\<close> (no \<open>m\<close> flag) is the end of the input.
\<close>

definition isLineTerminator :: "int \<Rightarrow> bool" where
  "isLineTerminator c = (c = 0x0A \<or> c = 0x0D \<or> c = 0x2028 \<or> c = 0x2029)"

definition isWhiteSpace :: "int \<Rightarrow> bool" where
  "isWhiteSpace c =
     (c = 0x09 \<or> c = 0x0A \<or> c = 0x0B \<or> c = 0x0C \<or> c = 0x0D \<or> c = 0x20 \<or> c = 0xA0
      \<or> c = 0x1680 \<or> (0x2000 \<le> c \<and> c \<le> 0x200A) \<or> c = 0x2028 \<or> c = 0x2029
      \<or> c = 0x202F \<or> c = 0x205F \<or> c = 0x3000 \<or> c = 0xFEFF)"

fun greedy :: "nat \<Rightarrow> (nat \<Rightarrow> 'a option) \<Rightarrow> 'a option" where
  "greedy 0 k = None"
| "greedy (Suc n) k = (case k (Suc n) of Some r \<Rightarrow> Some r | None \<Rightarrow> greedy n k)"

fun exec_from :: "('c list \<Rightarrow> 'a option) \<Rightarrow> 'c list \<Rightarrow> 'a option" where
  "exec_from m [] = m []"
| "exec_from m (c # cs) = (case m (c # cs) of Some r \<Rightarrow> Some r | None \<Rightarrow> exec_from m cs)"

text \<open>\<open>/filename="(.+)"\s*$/\<close> at one start position; the result is capture group 1.\<close>

definition filename_at :: "jsstring \<Rightarrow> jsstring option" where
  "filename_at s =
     (if take 10 s = ascii (''filename='' @ [DQ])
      then let r = drop 10 s in
           greedy (length (takeWhile (\<lambda>c. \<not> isLineTerminator c) r))
             (\<lambda>n. if take 1 (drop n r) = ascii [DQ] \<and> list_all isWhiteSpace (drop (Suc n) r)
                  then Some (take n r) else None)
      else None)"

definition REG_EXP_FILENAME :: "jsstring \<Rightarrow> jsstring option" where
  "REG_EXP_FILENAME s = exec_from filename_at s"

text \<open>\<open>/(\S+\/\S+)\s*$/\<close> at one start position; the result is capture group 1.\<close>

definition content_type_at :: "jsstring \<Rightarrow> jsstring option" where
  "content_type_at s =
     greedy (length (takeWhile (\<lambda>c. \<not> isWhiteSpace c) s))
       (\<lambda>n1. if take 1 (drop n1 s) = ascii ''/''
             then let r = drop (Suc n1) s in
                  greedy (length (takeWhile (\<lambda>c. \<not> isWhiteSpace c) r))
                    (\<lambda>n2. if list_all isWhiteSpace (drop n2 r)
                          then Some (take (n1 + 1 + n2) s) else None)
             else None)"

definition REG_EXP_CONTENT_TYPE :: "jsstring \<Rightarrow> jsstring option" where
  "REG_EXP_CONTENT_TYPE s = exec_from content_type_at s"

text \<open>\<open>/boundary=([^;]+)/\<close> of the constructor, on the header value.\<close>

definition boundary_at :: "string \<Rightarrow> string option" where
  "boundary_at s =
     (if take 9 s = ''boundary=''
      then (case takeWhile (\<lambda>c. c \<noteq> CHR '';'') (drop 9 s) of [] \<Rightarrow> None | r \<Rightarrow> Some r)
      else None)"


section \<open>HttpFile and HttpForm: scanning a chunk (http-form.mjs)\<close>

text \<open>
  \<open>class HttpFile { filename; contentType; stream }\<close>.  Every HttpFile opens a write stream
  of its own in its constructor, and the constructor's only caller pushes the new file
  onto \<open>files\<close> at once; so the stream of a file is identified by the position of the file
  in \<open>files\<close>, and the record keeps the two strings.
\<close>

record HttpFile =
  filename :: jsstring
  contentType :: jsstring

record HttpForm =
  boundary :: buffer
  files :: "HttpFile list"

text \<open>\<open>constructor(contentType)\<close>: the match result is indexed without a test, and the
  boundary is \<open>Buffer.from('--' + token)\<close>.\<close>

definition HttpForm_new :: "string \<Rightarrow> error + HttpForm" where
  "HttpForm_new ct =
     (case exec_from boundary_at ct of
        None \<Rightarrow> Inl TypeError
      | Some tok \<Rightarrow> Inr \<lparr>boundary = Buffer_from (''--'' @ tok), files = []\<rparr>)"

text \<open>
  \<open>[NEW_FILE_METHOD](buf, start)\<close>: three values are taken from the line generator, the
  two patterns are applied to the first two lines and their results indexed with \<open>[1]\<close>
  (a TypeError when a result is \<open>null\<close>, or when a line is \<open>undefined\<close>), the new file is
  pushed, and \<open>third.end + EOL.length\<close> is returned.
\<close>

definition NEW_FILE_METHOD ::
  "HttpFile list \<Rightarrow> buffer \<Rightarrow> int \<Rightarrow> error + (HttpFile list \<times> int)" where
  "NEW_FILE_METHOD fs buf start =
     (let itLine = splitBuffer buf EOL start;
          (first, it1) = gen_next itLine;
          (second, it2) = gen_next it1;
          (third, it3) = gen_next it2
      in case first of None \<Rightarrow> Inl TypeError | Some l1 \<Rightarrow>
         (case REG_EXP_FILENAME (SplitResult_toString l1) of None \<Rightarrow> Inl TypeError | Some name \<Rightarrow>
         (case second of None \<Rightarrow> Inl TypeError | Some l2 \<Rightarrow>
         (case REG_EXP_CONTENT_TYPE (SplitResult_toString l2) of None \<Rightarrow> Inl TypeError | Some ty \<Rightarrow>
         (case third of None \<Rightarrow> Inl TypeError | Some l3 \<Rightarrow>
            Inr (fs @ [\<lparr>filename = name, contentType = ty\<rparr>],
                 sr_end l3 + int (length EOL)))))))"

text \<open>
  A write task of the queue is \<open>lastFile.write.bind(lastFile, chunk.subarray(w_from, w_upto))\<close>:
  the file that was last when the task was made (its position in \<open>files\<close>) and a view of
  the chunk.
\<close>

record wtask =
  target :: nat
  w_from :: int
  w_upto :: int

definition wdata :: "buffer \<Rightarrow> wtask \<Rightarrow> buffer" where
  "wdata chunk w = subarray chunk (w_from w) (w_upto w)"

text \<open>
  The \<open>while (start !== -1)\<close> loop of \<open>_write\<close>.  It need not end (a header block that is
  cut off by the end of the chunk sends the cursor back to offset 1), so it is a partial
  function: \<open>None\<close> is a loop that runs forever, \<open>Some (Inl e)\<close> a thrown exception, and
  \<open>Some (Inr (files, queue, end))\<close> the variables when the loop is left.
\<close>

partial_function (option) scan_loop ::
  "buffer \<Rightarrow> buffer \<Rightarrow> HttpFile list \<Rightarrow> wtask list \<Rightarrow> int \<Rightarrow> int
     \<Rightarrow> (error + (HttpFile list \<times> wtask list \<times> int)) option" where
  "scan_loop bd chunk fs queue start fin =
     (if start \<noteq> -1 then
        (let queue1 = (if length fs > 0
                       then queue @ [\<lparr>target = length fs - 1, w_from = fin, w_upto = start\<rparr>]
                       else queue)
         in case SEP_compare chunk (start + int (length bd))
                   (start + int (length bd) + int (length SEP)) of
              Inl e \<Rightarrow> Some (Inl e)
            | Inr terminal \<Rightarrow>
               (if terminal then Some (Inr (fs, queue1, int (length chunk)))
                else
                 (case NEW_FILE_METHOD fs chunk (start + int (length bd) + int (length EOL)) of
                    Inl e \<Rightarrow> Some (Inl e)
                  | Inr (fs', fin') \<Rightarrow>
                      scan_loop bd chunk fs' queue1 (indexOf chunk bd fin') fin')))
      else Some (Inr (fs, queue, fin)))"

declare scan_loop.simps [code]

text \<open>
  The synchronous part of \<open>_write(chunk, encoding, callback)\<close>, up to the call of
  \<open>asyncQueue\<close>: the loop, then the remainder of the chunk for \<open>this.lastFile\<close>, which is
  \<open>undefined\<close> when \<open>files\<close> is empty.  The result is the new \<open>files\<close> and the queue.
\<close>

definition write_scan ::
  "HttpForm \<Rightarrow> buffer \<Rightarrow> (error + (HttpForm \<times> wtask list)) option" where
  "write_scan form chunk =
     (case scan_loop (boundary form) chunk (files form) []
             (indexOf chunk (boundary form) 0) 0 of
        None \<Rightarrow> None
      | Some (Inl e) \<Rightarrow> Some (Inl e)
      | Some (Inr (fs, queue, fin)) \<Rightarrow>
          (if fin < int (length chunk)
           then (if fs = [] then Some (Inl TypeError)
                 else Some (Inr (form\<lparr>files := fs\<rparr>,
                        queue @ [\<lparr>target = length fs - 1, w_from = fin,
                                  w_upto = int (length chunk)\<rparr>])))
           else Some (Inr (form\<lparr>files := fs\<rparr>, queue))))"


section \<open>The event loop and the two orchestrators (async.mjs)\<close>

text \<open>
  Values that a task hands to its continuation, and event names.  \<open>DONE_EVENT\<close> and
  \<open>END_EVENT\<close> are the two symbols of async.mjs; \<open>Num\<close> stands for any ordinary value.
\<close>

datatype val = Undefined | DONE_EVENT | END_EVENT | Num int

text \<open>
  An \<open>AsyncTask\<close> is a function that is called with the continuation \<open>callback\<close>.  What an
  orchestrator can see of a task is how it invokes the continuation: directly, before the
  task returns (\<open>Sync\<close>); from a microtask it queues with \<open>queueMicrotask\<close> (\<open>Micro\<close>); or
  from a later turn of the event loop, when some event source (a drained or closed
  stream, a timer) calls it (\<open>Later\<close>).  A task is its label, under which its start is
  recorded, and the invocations it makes, each with the result values it passes.
\<close>

datatype mode = Sync | Micro | Later

datatype 'l task = Task (label: 'l) (acts: "(mode \<times> val list) list")

text \<open>
  The jobs of the microtask queue: \<open>task.bind(undefined, it.next())\<close> (asyncQueue),
  \<open>func.bind(undefined, callback)\<close> and \<open>emitter.emit.bind(emitter, END_EVENT)\<close>
  (asyncParallel), and a continuation that a task has queued.
\<close>

datatype 'l job = TaskJob "'l task option" | FuncJob "'l task" | EmitEndJob
  | CallbackJob "val list"

text \<open>What is observed: a task is called, the emitter broadcasts an event, the listener
  attached with \<open>once(END_EVENT, ...)\<close> is called.\<close>

datatype 'l obs = Started 'l | Emit val "val list" | Fired

datatype orchestrator = Queue | Parallel

text \<open>
  The state of one orchestrator call: the iterator \<open>it\<close> (its unread items), the microtask
  queue, the continuations held by event sources, whether a \<open>once(END_EVENT)\<close> listener is
  attached to the emitter, and the observations so far.
\<close>

record 'l loop =
  orch :: orchestrator
  iter :: "'l task list"
  mq :: "'l job list"
  pending :: "val list list"
  onceEND :: bool
  trace :: "'l obs list"

text \<open>\<open>emitter.emit(name, ...args)\<close> calls the listeners of \<open>name\<close> synchronously; a \<open>once\<close>
  listener is removed when it is called.  The only listener of the model is the one that
  the callers attach for \<open>END_EVENT\<close>.  (Node treats the event name \<open>'error'\<close> specially;
  no value of \<open>val\<close> stands for that string.)\<close>

definition emit :: "val \<Rightarrow> val list \<Rightarrow> 'l loop \<Rightarrow> 'l loop" where
  "emit name args s =
     (if name = END_EVENT \<and> onceEND s
      then s\<lparr>trace := trace s @ [Emit name args, Fired], onceEND := False\<rparr>
      else s\<lparr>trace := trace s @ [Emit name args]\<rparr>)"

text \<open>\<open>emitter.emit.apply(emitter, results)\<close>: the first result is the event name; with no
  result the name is \<open>undefined\<close>.\<close>

definition emit_apply :: "val list \<Rightarrow> 'l loop \<Rightarrow> 'l loop" where
  "emit_apply results s =
     (case results of [] \<Rightarrow> emit Undefined [] s | name # args \<Rightarrow> emit name args s)"

text \<open>\<open>it.next()\<close>: \<open>None\<close> is \<open>{ done: true }\<close>.\<close>

definition it_next :: "'l loop \<Rightarrow> 'l task option \<times> 'l loop" where
  "it_next s = (case iter s of [] \<Rightarrow> (None, s) | t # ts \<Rightarrow> (Some t, s\<lparr>iter := ts\<rparr>))"

text \<open>\<open>const factory = () => queueMicrotask(task.bind(undefined, it.next()))\<close>\<close>

definition factory :: "'l loop \<Rightarrow> 'l loop" where
  "factory s = (let (n, s') = it_next s in s'\<lparr>mq := mq s' @ [TaskJob n]\<rparr>)"

text \<open>The continuation \<open>callback\<close> of asyncQueue and that of asyncParallel.\<close>

definition callback :: "val list \<Rightarrow> 'l loop \<Rightarrow> 'l loop" where
  "callback results s =
     (case orch s of
        Queue \<Rightarrow> factory (emit_apply results s)
      | Parallel \<Rightarrow>
          (let (n, s') = it_next (emit_apply results s)
           in if n = None then emit END_EVENT [] s' else s'))"

text \<open>Calling a task: its invocations of the continuation, in order.\<close>

definition run_act :: "mode \<times> val list \<Rightarrow> 'l loop \<Rightarrow> 'l loop" where
  "run_act a s =
     (case fst a of
        Sync \<Rightarrow> callback (snd a) s
      | Micro \<Rightarrow> s\<lparr>mq := mq s @ [CallbackJob (snd a)]\<rparr>
      | Later \<Rightarrow> s\<lparr>pending := pending s @ [snd a]\<rparr>)"

definition run_task :: "'l task \<Rightarrow> 'l loop \<Rightarrow> 'l loop" where
  "run_task t s = fold run_act (acts t) (s\<lparr>trace := trace s @ [Started (label t)]\<rparr>)"

text \<open>One microtask.  \<open>TaskJob\<close> is the function \<open>task\<close> of asyncQueue:
  \<open>if (next.done) emitter.emit(END_EVENT) else next.value(callback)\<close>.\<close>

definition run_job :: "'l job \<Rightarrow> 'l loop \<Rightarrow> 'l loop" where
  "run_job j s =
     (case j of
        TaskJob None \<Rightarrow> emit END_EVENT [] s
      | TaskJob (Some t) \<Rightarrow> run_task t s
      | FuncJob t \<Rightarrow> run_task t s
      | EmitEndJob \<Rightarrow> emit END_EVENT [] s
      | CallbackJob results \<Rightarrow> callback results s)"

text \<open>
  One turn of the event loop.  The microtask queue is served first, in order.  When it is
  empty, one of the continuations held by an event source is called; which one is the
  environment's choice \<open>c\<close>.  When nothing is left the loop is idle (\<open>None\<close>).
\<close>

definition step :: "nat \<Rightarrow> 'l loop \<Rightarrow> 'l loop option" where
  "step c s =
     (case mq s of
        j # js \<Rightarrow> Some (run_job j (s\<lparr>mq := js\<rparr>))
      | [] \<Rightarrow>
         (if pending s = [] then None
          else let i = c mod length (pending s)
               in Some (callback (pending s ! i)
                          (s\<lparr>pending := take i (pending s) @ drop (Suc i) (pending s)\<rparr>))))"

text \<open>A run: one turn for every choice of the schedule, stopping when idle.\<close>

fun exec :: "nat list \<Rightarrow> 'l loop \<Rightarrow> 'l loop" where
  "exec [] s = s"
| "exec (c # cs) s = (case step c s of None \<Rightarrow> s | Some s' \<Rightarrow> exec cs s')"

definition idle :: "'l loop \<Rightarrow> bool" where
  "idle s = (mq s = [] \<and> pending s = [])"

text \<open>\<open>asyncQueue(functions)\<close>: the state when the call returns the emitter.\<close>

definition asyncQueue :: "'l task list \<Rightarrow> 'l loop" where
  "asyncQueue functions =
     factory \<lparr>orch = Queue, iter = functions, mq = [], pending = [], onceEND = False,
              trace = []\<rparr>"

text \<open>\<open>asyncParallel(functions)\<close>: the \<open>for\<close> loop queues every function, then \<open>it.next()\<close>
  is called once and, when it is done, the emission of \<open>END_EVENT\<close> is queued.
  \<open>functions\<close> is an array, as in the callers: the \<open>for\<close> loop and \<open>it\<close> iterate over it
  independently.\<close>

definition asyncParallel :: "'l task list \<Rightarrow> 'l loop" where
  "asyncParallel functions =
     (let s = \<lparr>orch = Parallel, iter = functions, mq = map FuncJob functions, pending = [],
               onceEND = False, trace = []\<rparr>;
          (n, s') = it_next s
      in if n = None then s'\<lparr>mq := mq s' @ [EmitEndJob]\<rparr> else s')"

text \<open>\<open>emitter.once(END_EVENT, callback)\<close>\<close>

definition once_END :: "'l loop \<Rightarrow> 'l loop" where
  "once_END s = s\<lparr>onceEND := True\<rparr>"


section \<open>HttpForm: writing and closing (http-form.mjs)\<close>

datatype io = Write nat buffer | Close nat

text \<open>
  \<open>HttpFile.write(data, callback)\<close> as a task: \<open>this.stream.write(data)\<close> hands the data to
  the stream of the file when the task is called; its boolean result (has the stream room
  for more?) decides between \<open>queueMicrotask(callback)\<close> and
  \<open>this.stream.once('drain', callback)\<close>.  Either way the continuation gets no result.
\<close>

definition HttpFile_write :: "bool \<Rightarrow> nat \<Rightarrow> buffer \<Rightarrow> io task" where
  "HttpFile_write ok f data = Task (Write f data) [(if ok then Micro else Later, [])]"

text \<open>\<open>HttpFile.close(callback)\<close>: the stream calls the continuation once it is closed.\<close>

definition HttpFile_close :: "nat \<Rightarrow> io task" where
  "HttpFile_close f = Task (Close f) [(Later, [])]"

text \<open>The bytes that the stream of file \<open>f\<close> has been handed, in the order of the calls.\<close>

fun written :: "nat \<Rightarrow> io obs list \<Rightarrow> buffer" where
  "written f [] = []"
| "written f (Started (Write g data) # tr) = (if g = f then data @ written f tr else written f tr)"
| "written f (e # tr) = written f tr"

text \<open>
  \<open>_write(chunk, encoding, callback)\<close>: the scan, then
  \<open>asyncQueue(queue).once(END_EVENT, callback)\<close>.  \<open>accept k\<close> is the result of
  \<open>stream.write\<close> in the \<open>k\<close>-th task of the queue.
\<close>

definition write_tasks :: "(nat \<Rightarrow> bool) \<Rightarrow> buffer \<Rightarrow> wtask list \<Rightarrow> io task list" where
  "write_tasks accept chunk queue =
     map (\<lambda>(k, w). HttpFile_write (accept k) (target w) (wdata chunk w)) (enumerate 0 queue)"

definition HttpForm_write ::
  "(nat \<Rightarrow> bool) \<Rightarrow> HttpForm \<Rightarrow> buffer \<Rightarrow> (error + (HttpForm \<times> io loop)) option" where
  "HttpForm_write accept form chunk =
     (case write_scan form chunk of
        None \<Rightarrow> None
      | Some (Inl e) \<Rightarrow> Some (Inl e)
      | Some (Inr (form', queue)) \<Rightarrow>
          Some (Inr (form', once_END (asyncQueue (write_tasks accept chunk queue)))))"

text \<open>\<open>_final(callback)\<close>:
  \<open>asyncParallel(this.files.map(f => f.close.bind(f))).once(END_EVENT, callback)\<close>\<close>

definition HttpForm_final :: "HttpForm \<Rightarrow> io loop" where
  "HttpForm_final form =
     once_END (asyncParallel (map HttpFile_close [0..<length (files form)]))"


section \<open>Vocabulary of the statements\<close>

subsection \<open>Tasks and traces\<close>

text \<open>The event that the continuation broadcasts for given results.\<close>

definition completion :: "val list \<Rightarrow> 'l obs" where
  "completion results =
     (case results of [] \<Rightarrow> Emit Undefined [] | name # args \<Rightarrow> Emit name args)"

text \<open>A task that signals its completion exactly once, and the results it passes.\<close>

definition single :: "'l task \<Rightarrow> bool" where
  "single t = (length (acts t) = 1)"

definition result :: "'l task \<Rightarrow> val list" where
  "result t = snd (hd (acts t))"

text \<open>A task that never passes the symbol \<open>END_EVENT\<close> as its first result.\<close>

definition quiet :: "'l task \<Rightarrow> bool" where
  "quiet t = (\<forall>a\<in>set (acts t). take 1 (snd a) \<noteq> [END_EVENT])"

text \<open>
  Projections of a trace: the broadcast events, and the labels of the tasks called.
  \<open>is_END\<close> recognises an event named \<open>END_EVENT\<close>.
\<close>

definition emits :: "'l obs list \<Rightarrow> 'l obs list" where
  "emits tr = filter (\<lambda>e. case e of Emit n a \<Rightarrow> True | _ \<Rightarrow> False) tr"

definition starts :: "'l obs list \<Rightarrow> 'l list" where
  "starts tr = concat (map (\<lambda>e. case e of Started l \<Rightarrow> [l] | _ \<Rightarrow> []) tr)"


text \<open>
  The invocations of the continuation in a run, in the order in which they happen, each
  with the results it is passed; a task finishes when it invokes its continuation.  In
  one turn of the event loop these are: for a task that is called, the invocations it
  makes before it returns; for a continuation that a task has queued, or that an event
  source calls, this one invocation.
\<close>

definition sync_results :: "'l task \<Rightarrow> val list list" where
  "sync_results t = map snd (filter (\<lambda>a. fst a = Sync) (acts t))"

definition turn_calls :: "nat \<Rightarrow> 'l loop \<Rightarrow> val list list" where
  "turn_calls c s =
     (case mq s of
        j # js \<Rightarrow>
          (case j of
             TaskJob (Some t) \<Rightarrow> sync_results t
           | FuncJob t \<Rightarrow> sync_results t
           | CallbackJob results \<Rightarrow> [results]
           | _ \<Rightarrow> [])
      | [] \<Rightarrow> (if pending s = [] then [] else [pending s ! (c mod length (pending s))]))"

fun calls :: "nat list \<Rightarrow> 'l loop \<Rightarrow> val list list" where
  "calls [] s = []"
| "calls (c # cs) s = (case step c s of None \<Rightarrow> [] | Some s' \<Rightarrow> turn_calls c s @ calls cs s')"

subsection \<open>Sequential runs\<close>

text \<open>What a sequential run shows of one task, and of the aggregate completion; \<open>L\<close>
  tells whether a \<open>once(END_EVENT)\<close> listener is attached.\<close>

definition task_events :: "'l task \<Rightarrow> 'l obs list" where
  "task_events t = [Started (label t), completion (result t)]"

definition end_events :: "bool \<Rightarrow> 'l obs list" where
  "end_events L = (if L then [Emit END_EVENT [], Fired] else [Emit END_EVENT []])"

definition queue_trace :: "bool \<Rightarrow> 'l task list \<Rightarrow> 'l obs list" where
  "queue_trace L ts = concat (map task_events ts) @ end_events L"

text \<open>The states of a sequential run: the next task is queued (\<open>qstate\<close>), a task has been
  called and its continuation is awaited (\<open>qwait\<close>), all is done (\<open>qfinal\<close>).\<close>

definition qstate :: "bool \<Rightarrow> 'l task list \<Rightarrow> 'l obs list \<Rightarrow> 'l loop" where
  "qstate L ts tr =
     factory \<lparr>orch = Queue, iter = ts, mq = [], pending = [], onceEND = L, trace = tr\<rparr>"

definition qwait :: "bool \<Rightarrow> mode \<Rightarrow> val list \<Rightarrow> 'l task list \<Rightarrow> 'l obs list \<Rightarrow> 'l loop" where
  "qwait L m rs ts tr =
     \<lparr>orch = Queue, iter = ts, mq = (if m = Micro then [CallbackJob rs] else []),
      pending = (if m = Later then [rs] else []), onceEND = L, trace = tr\<rparr>"

definition qfinal :: "'l obs list \<Rightarrow> 'l loop" where
  "qfinal tr = \<lparr>orch = Queue, iter = [], mq = [], pending = [], onceEND = False, trace = tr\<rparr>"

subsection \<open>Concurrent runs\<close>

text \<open>
  The completion events that a list of tasks will broadcast, as a multiset: their order is
  the order in which the tasks finish.
\<close>

definition completions :: "'l task list \<Rightarrow> 'l obs multiset" where
  "completions ts = mset (map (\<lambda>t. completion (result t)) ts)"





subsection \<open>Invariants of every run\<close>

text \<open>
  The listener attached with \<open>once(END_EVENT)\<close> has heard of \<open>END_EVENT\<close>: as long as it is
  attached, neither an \<open>END_EVENT\<close> nor its call has been observed; once it is removed,
  both have.
\<close>

definition heard :: "'l loop \<Rightarrow> bool" where
  "heard s =
     (if onceEND s
      then Fired \<notin> set (trace s) \<and> (\<forall>a. Emit END_EVENT a \<notin> set (trace s))
      else Fired \<in> set (trace s) \<and> (\<exists>a. Emit END_EVENT a \<in> set (trace s)))"

text \<open>
  Where the events of a run come from: the results that some task of the list passes to
  its continuation (\<open>from_task\<close>); an event is \<open>allowed\<close> when it is the aggregate
  \<open>END_EVENT\<close> or the completion event of such results; \<open>named\<close> is the invariant that
  every job, every held continuation and every event stems from the list.
\<close>

definition from_task :: "'l task list \<Rightarrow> val list \<Rightarrow> bool" where
  "from_task fs rs = (\<exists>t\<in>set fs. \<exists>a\<in>set (acts t). snd a = rs)"

definition allowed :: "'l task list \<Rightarrow> 'l obs \<Rightarrow> bool" where
  "allowed fs e =
     (case e of
        Emit n a \<Rightarrow> (n = END_EVENT \<and> a = []) \<or> (\<exists>rs. from_task fs rs \<and> completion rs = e)
      | _ \<Rightarrow> True)"

definition job_ok :: "'l task list \<Rightarrow> 'l job \<Rightarrow> bool" where
  "job_ok fs j =
     (case j of
        TaskJob (Some t) \<Rightarrow> t \<in> set fs
      | FuncJob t \<Rightarrow> t \<in> set fs
      | CallbackJob rs \<Rightarrow> from_task fs rs
      | _ \<Rightarrow> True)"

definition named :: "'l task list \<Rightarrow> 'l loop \<Rightarrow> bool" where
  "named fs s =
     (set (iter s) \<subseteq> set fs \<and> list_all (job_ok fs) (mq s)
      \<and> list_all (from_task fs) (pending s) \<and> list_all (allowed fs) (trace s))"

subsection \<open>Scanning\<close>

text \<open>The byte sequence \<open>val\<close> occurs in the buffer at offset \<open>i\<close>.\<close>

definition occurs_at :: "buffer \<Rightarrow> buffer \<Rightarrow> int \<Rightarrow> bool" where
  "occurs_at buf val i =
     (0 \<le> i \<and> i + int (length val) \<le> int (length buf)
      \<and> take (length val) (drop (nat i) buf) = val)"

text \<open>
  The header lines as \<open>NEW_FILE_METHOD\<close> reads them: the \<open>k\<close>-th value of the line generator,
  decoded; \<open>None\<close> when the generator has ended before.  A header block is malformed when
  its first line does not match the file name pattern or its second line does not match
  the content type pattern.
\<close>

definition header_line :: "buffer \<Rightarrow> int \<Rightarrow> nat \<Rightarrow> jsstring option" where
  "header_line chunk start k =
     (let ys = yields (Suc k) (splitBuffer chunk EOL start)
      in if k < length ys then Some (SplitResult_toString (ys ! k)) else None)"

definition malformed :: "buffer \<Rightarrow> int \<Rightarrow> bool" where
  "malformed chunk start =
     ((case header_line chunk start 0 of
         None \<Rightarrow> True | Some l \<Rightarrow> REG_EXP_FILENAME l = None)
      \<or> (case header_line chunk start 1 of
         None \<Rightarrow> True | Some l \<Rightarrow> REG_EXP_CONTENT_TYPE l = None))"

text \<open>
  The states in which the loop of \<open>_write\<close> evaluates its test, for the boundary \<open>bd\<close>, a
  chunk and the files \<open>fs0\<close> at the call: the first has the empty queue, the first
  occurrence of the boundary and the cursor 0; after a boundary that is not terminal and
  a header block that is parsed, the next has the new file, the cursor behind the header
  block and the next occurrence of the boundary.
\<close>

inductive visits :: "buffer \<Rightarrow> buffer \<Rightarrow> HttpFile list
    \<Rightarrow> HttpFile list \<Rightarrow> wtask list \<Rightarrow> int \<Rightarrow> int \<Rightarrow> bool"
  for bd chunk fs0 where
  first: "visits bd chunk fs0 fs0 [] (indexOf chunk bd 0) 0"
| again: "visits bd chunk fs0 fs queue start fin \<Longrightarrow> start \<noteq> -1 \<Longrightarrow>
     SEP_compare chunk (start + int (length bd)) (start + int (length bd) + int (length SEP))
       = Inr False \<Longrightarrow>
     NEW_FILE_METHOD fs chunk (start + int (length bd) + int (length EOL)) = Inr (fs', fin') \<Longrightarrow>
     visits bd chunk fs0 fs'
       (if length fs > 0 then queue @ [\<lparr>target = length fs - 1, w_from = fin, w_upto = start\<rparr>]
        else queue)
       (indexOf chunk bd fin') fin'"

code_pred visits .

text \<open>The queue after the first statement of the loop body,
  \<open>if (this.files.length > 0) queue.push(...)\<close>, in a state that the loop visits.\<close>

definition queue_push :: "HttpFile list \<Rightarrow> wtask list \<Rightarrow> int \<Rightarrow> int \<Rightarrow> wtask list" where
  "queue_push fs queue start fin =
     (if length fs > 0 then queue @ [\<lparr>target = length fs - 1, w_from = fin, w_upto = start\<rparr>]
      else queue)"




subsection \<open>The inputs of the scenarios\<close>

definition header_block :: "string \<Rightarrow> string \<Rightarrow> buffer" where
  "header_block name ty =
     ''Content-Disposition: form-data; name='' @ [DQ] @ ''infile'' @ [DQ]
       @ ''; filename='' @ [DQ] @ name @ [DQ] @ EOL
     @ ''Content-Type: '' @ ty @ EOL
     @ EOL"

definition form_B :: HttpForm where
  "form_B = \<lparr>boundary = ''--B'', files = []\<rparr>"

definition form_BOUNDARY :: HttpForm where
  "form_BOUNDARY = \<lparr>boundary = ''--BOUNDARY'', files = []\<rparr>"

definition single_file_chunk :: buffer where
  "single_file_chunk =
     ''--B'' @ EOL @ header_block ''a.txt'' ''text/plain'' @ ''hello'' @ EOL @ ''--B--''"


definition bad_second_chunk :: buffer where
  "bad_second_chunk =
     ''--B'' @ EOL @ header_block ''a.txt'' ''text/plain'' @ ''hello'' @ EOL
     @ ''--B'' @ EOL @ ''Content-Disposition: form-data; name='' @ [DQ] @ ''infile'' @ [DQ] @ EOL
     @ ''Content-Type: text/plain'' @ EOL @ EOL @ ''world'' @ EOL @ ''--B--''"

text \<open>A file name that holds U+2028 (the bytes E2 80 A8), and a first header line that ends
  with U+00A0 (the bytes C2 A0).\<close>

definition line_separator_chunk :: buffer where
  "line_separator_chunk =
     ''--B'' @ EOL @ ''Content-Disposition: form-data; name='' @ [DQ] @ ''infile'' @ [DQ]
       @ ''; filename='' @ [DQ] @ ''a'' @ [CHR 0xE2, CHR 0x80, CHR 0xA8] @ ''b'' @ [DQ] @ EOL
     @ ''Content-Type: text/plain'' @ EOL @ EOL @ ''hello'' @ EOL @ ''--B--''"

definition no_break_space_chunk :: buffer where
  "no_break_space_chunk =
     ''--B'' @ EOL @ ''Content-Disposition: form-data; name='' @ [DQ] @ ''infile'' @ [DQ]
       @ ''; filename='' @ [DQ] @ ''a'' @ [DQ] @ [CHR 0xC2, CHR 0xA0] @ EOL
     @ ''Content-Type: text/plain'' @ EOL @ EOL @ ''hello'' @ EOL @ ''--B--''"

definition cut_short_chunk :: buffer where
  "cut_short_chunk =
     ''z--B'' @ EOL @ ''filename='' @ [DQ] @ ''a'' @ [DQ] @ EOL @ ''a/b'' @ EOL"

definition room :: "nat \<Rightarrow> bool" where
  "room k = True"





definition tasks_DE :: "string task list" where
  "tasks_DE = [Task ''D'' [(Sync, [DONE_EVENT, Num 7])], Task ''E'' [(Later, [Num 1, Num 2])]]"


section \<open>The views of splitBuffer\<close>

text \<open>\<open>find_from\<close> and \<open>indexOf\<close> return the first occurrence at or after the offset.\<close>

lemma find_from_spec:
  assumes "val \<noteq> []"
  shows "(find_from val bs i = -1 \<longrightarrow> (\<forall>j < length bs. take (length val) (drop j bs) \<noteq> val))
       \<and> (find_from val bs i \<noteq> -1 \<longrightarrow>
            (\<exists>k < length bs. find_from val bs i = int (i + k)
               \<and> take (length val) (drop k bs) = val
               \<and> (\<forall>j < k. take (length val) (drop j bs) \<noteq> val)))"
proof (induction bs arbitrary: i)
  case Nil
  then show ?case using assms by simp
next
  case (Cons b bs)
  show ?case
  proof (cases "take (length val) (b # bs) = val")
    case True
    then show ?thesis by (auto intro!: exI [of _ 0])
  next
    case False
    have less: "(\<forall>j < Suc n. P j) \<longleftrightarrow> P 0 \<and> (\<forall>j < n. P (Suc j))" for n and P :: "nat \<Rightarrow> bool"
      by (auto simp: less_Suc_eq_0_disj)
    show ?thesis
    proof (cases "find_from val bs (Suc i) = -1")
      case True
      with Cons.IH [of "Suc i"] False show ?thesis
        by (simp add: less)
    next
      case nf: False
      with Cons.IH [of "Suc i"] obtain k where k: "k < length bs"
        "find_from val bs (Suc i) = int (Suc i + k)" "take (length val) (drop k bs) = val"
        "\<forall>j < k. take (length val) (drop j bs) \<noteq> val"
        by blast
      have "\<forall>j < Suc k. take (length val) (drop j (b # bs)) \<noteq> val"
        using False k(4) by (simp add: less)
      with k False show ?thesis
        by (auto intro!: exI [of _ "Suc k"])
    qed
  qed
qed

lemma take_eq_length: "take n xs = ys \<Longrightarrow> length ys = n \<Longrightarrow> n \<le> length xs"
  by (metis length_take min.absorb_iff2 linear min.commute)

lemma indexOf_spec:
  assumes "sep \<noteq> []" and "0 \<le> start"
  shows "(indexOf buf sep start = -1 \<longrightarrow> (\<forall>i \<ge> start. \<not> occurs_at buf sep i))
       \<and> (indexOf buf sep start \<noteq> -1 \<longrightarrow>
            start \<le> indexOf buf sep start \<and> occurs_at buf sep (indexOf buf sep start)
            \<and> (\<forall>i. start \<le> i \<and> i < indexOf buf sep start \<longrightarrow> \<not> occurs_at buf sep i))"
proof (cases "start + int (length sep) \<le> int (length buf)")
  case False
  then have "indexOf buf sep start = -1"
    using assms by (simp add: indexOf_def Let_def)
  moreover have "\<not> occurs_at buf sep i" if "start \<le> i" for i
    using False that by (simp add: occurs_at_def)
  ultimately show ?thesis by simp
next
  case True
  let ?bs = "drop (nat start) buf"
  have io: "indexOf buf sep start = find_from sep ?bs (nat start)"
    using assms True by (simp add: indexOf_def Let_def)
  have occ: "occurs_at buf sep (start + int j) \<longleftrightarrow> take (length sep) (drop j ?bs) = sep" for j
  proof
    assume "occurs_at buf sep (start + int j)"
    then show "take (length sep) (drop j ?bs) = sep"
      using assms(2) by (simp add: occurs_at_def nat_add_distrib add.commute)
  next
    assume t: "take (length sep) (drop j ?bs) = sep"
    then have l1: "length sep \<le> length (drop j ?bs)"
      by (rule take_eq_length) simp
    have l2: "length (drop j ?bs) = length buf - nat start - j"
      by simp
    have pos: "0 < length sep" using assms(1) by simp
    from l1 l2 pos have len: "length sep + j + nat start \<le> length buf"
      by arith
    have ns: "int (nat start) = start" using assms(2) by simp
    from len ns have "start + int j + int (length sep) \<le> int (length buf)"
      by linarith
    then show "occurs_at buf sep (start + int j)"
      using assms(2) t by (simp add: occurs_at_def nat_add_distrib add.commute)
  qed
  have "nat start \<le> length buf"
    using True assms(2) by linarith
  then have lb: "start + int (length ?bs) = int (length buf)"
    using assms(2) by (simp add: of_nat_diff)
  have pos: "0 < int (length sep)" using assms(1) by simp
  have beyond: "\<not> occurs_at buf sep i" if "i \<ge> start + int (length ?bs)" for i
  proof
    assume "occurs_at buf sep i"
    then have "i + int (length sep) \<le> int (length buf)" by (simp add: occurs_at_def)
    with that lb pos show False by linarith
  qed
  note ff = find_from_spec [OF assms(1), of ?bs "nat start"]
  show ?thesis
  proof (cases "find_from sep ?bs (nat start) = -1")
    case m: True
    have "\<not> occurs_at buf sep i" if "start \<le> i" for i
    proof (cases "i < start + int (length ?bs)")
      case True
      with that have "i = start + int (nat (i - start))" "nat (i - start) < length ?bs"
        by simp_all
      with ff m occ [of "nat (i - start)"] show ?thesis by metis
    next
      case False
      then show ?thesis using beyond by simp
    qed
    with io m show ?thesis by simp
  next
    case f: False
    with ff obtain k where k: "k < length ?bs" "find_from sep ?bs (nat start) = int (nat start + k)"
      "take (length sep) (drop k ?bs) = sep" "\<forall>j < k. take (length sep) (drop j ?bs) \<noteq> sep"
      by blast
    have e: "indexOf buf sep start = start + int k"
      using io k(2) assms(2) by simp
    have "\<not> occurs_at buf sep i" if "start \<le> i" "i < start + int k" for i
    proof -
      from that have "i = start + int (nat (i - start))" "nat (i - start) < k"
        by simp_all
      with k(4) occ [of "nat (i - start)"] show ?thesis by metis
    qed
    with e f io k(3) occ [of k] show ?thesis by simp
  qed
qed

text \<open>
  For a non-empty separator and a start offset that is not negative, every view refers to
  the buffer itself and begins at the cursor.  A view that is not the last one ends at
  the next occurrence of the separator, no occurrence lies inside it, and the cursor moves
  behind that occurrence.  The last view is yielded when no occurrence is left; its end
  is -1, and it decodes to the empty string.
\<close>

lemma splitBuffer_views:
  assumes "sep \<noteq> []" and "0 \<le> start"
    and "gen_next (splitBuffer buf sep start) = (Some v, g)"
  shows "sr_buf v = buf \<and> sr_start v = start \<and> sr_end v = indexOf buf sep start
       \<and> (g \<noteq> Returned \<longrightarrow>
            g = splitBuffer buf sep (sr_end v + int (length sep))
            \<and> start \<le> sr_end v \<and> occurs_at buf sep (sr_end v)
            \<and> (\<forall>i. start \<le> i \<and> i < sr_end v \<longrightarrow> \<not> occurs_at buf sep i))
       \<and> (g = Returned \<longrightarrow> sr_end v = -1 \<and> (\<forall>i \<ge> start. \<not> occurs_at buf sep i))"
  using assms(3) indexOf_spec [OF assms(1,2), of buf]
  by (auto simp: splitBuffer_def Let_def split: if_splits)

lemma last_view_end:
  "gen_next g = (Some v, Returned) \<Longrightarrow> sr_end v = -1 \<and> SplitResult_toString v = []"
  by (cases g) (auto simp: Let_def SplitResult_toString_def toString_def split: if_splits)


section \<open>The sequential orchestrator\<close>

lemma exec_idle: "idle s \<Longrightarrow> exec sched s = s"
  by (cases sched) (auto simp: idle_def step_def)

lemma asyncQueue_qstate: "asyncQueue fs = qstate False fs []"
  by (simp add: asyncQueue_def qstate_def)

lemma once_asyncQueue_qstate: "once_END (asyncQueue fs) = qstate True fs []"
  by (cases fs) (simp_all add: asyncQueue_def qstate_def once_END_def factory_def it_next_def)

lemma trace_qstate [simp]: "trace (qstate L ts tr) = tr"
  by (cases ts) (simp_all add: qstate_def factory_def it_next_def)

lemma trace_qfinal [simp]: "trace (qfinal tr) = tr"
  by (simp add: qfinal_def)

lemma idle_qfinal [simp]: "idle (qfinal tr)"
  by (simp add: idle_def qfinal_def)

lemma step_qstate_Nil: "step c (qstate L [] tr) = Some (qfinal (tr @ end_events L))"
  by (simp add: qstate_def factory_def it_next_def step_def run_job_def emit_def qfinal_def
      end_events_def)

lemma emit_apply_quiet:
  "L \<longrightarrow> take 1 rs \<noteq> [END_EVENT] \<Longrightarrow> onceEND s = L \<Longrightarrow>
   emit_apply rs s = s\<lparr>trace := trace s @ [completion rs]\<rparr>"
  by (cases rs) (auto simp: emit_apply_def emit_def completion_def)

lemma callback_queue:
  "L \<longrightarrow> take 1 rs \<noteq> [END_EVENT] \<Longrightarrow>
   callback rs \<lparr>orch = Queue, iter = ts, mq = [], pending = [], onceEND = L, trace = tr\<rparr>
     = qstate L ts (tr @ [completion rs])"
  by (simp add: callback_def emit_apply_quiet qstate_def)

lemma step_qstate_Sync:
  "L \<longrightarrow> take 1 rs \<noteq> [END_EVENT] \<Longrightarrow>
   step c (qstate L (Task l [(Sync, rs)] # ts) tr)
     = Some (qstate L ts (tr @ [Started l, completion rs]))"
  by (simp add: qstate_def factory_def it_next_def step_def run_job_def run_task_def
      run_act_def callback_def emit_apply_quiet)

lemma step_qstate_defer:
  "m \<noteq> Sync \<Longrightarrow>
   step c (qstate L (Task l [(m, rs)] # ts) tr) = Some (qwait L m rs ts (tr @ [Started l]))"
  by (cases m)
     (simp_all add: qstate_def factory_def it_next_def step_def run_job_def run_task_def
        run_act_def qwait_def)

lemma step_qwait:
  "m \<noteq> Sync \<Longrightarrow> L \<longrightarrow> take 1 rs \<noteq> [END_EVENT] \<Longrightarrow>
   step c (qwait L m rs ts tr) = Some (qstate L ts (tr @ [completion rs]))"
  by (cases m) (simp_all add: qwait_def step_def run_job_def callback_queue)

text \<open>
  A sequential run over tasks that complete once: whatever the schedule, the observations
  are an initial part of the one possible sequence, and \<open>2 n + 1\<close> turns complete it.
\<close>

lemma queue_run:
  assumes "\<forall>t\<in>set ts. single t \<and> (L \<longrightarrow> quiet t)"
  shows "prefix tr (trace (exec sched (qstate L ts tr)))
       \<and> prefix (trace (exec sched (qstate L ts tr))) (tr @ queue_trace L ts)
       \<and> (2 * length ts + 1 \<le> length sched \<longrightarrow>
            exec sched (qstate L ts tr) = qfinal (tr @ queue_trace L ts))"
  using assms
proof (induction ts arbitrary: sched tr)
  case Nil
  show ?case
  proof (cases sched)
    case Nil
    then show ?thesis by simp
  next
    case (Cons c cs)
    then show ?thesis
      by (simp add: step_qstate_Nil exec_idle queue_trace_def)
  qed
next
  case (Cons t ts)
  obtain l m rs where t: "t = Task l [(m, rs)]"
    using Cons.prems by (cases t) (auto simp: single_def length_Suc_conv)
  have q: "L \<longrightarrow> take 1 rs \<noteq> [END_EVENT]"
    using Cons.prems by (simp add: t quiet_def)
  have rest: "\<forall>t\<in>set ts. single t \<and> (L \<longrightarrow> quiet t)"
    using Cons.prems by simp
  have ev: "queue_trace L (t # ts) = [Started l, completion rs] @ queue_trace L ts"
    by (simp add: queue_trace_def task_events_def t result_def)
  note IH = Cons.IH [OF rest]
  show ?case
  proof (cases sched)
    case Nil
    then show ?thesis by simp
  next
    case sched: (Cons c cs)
    show ?thesis
    proof (cases "m = Sync")
      case True
      have s: "exec sched (qstate L (t # ts) tr)
                 = exec cs (qstate L ts (tr @ [Started l, completion rs]))"
        using q by (simp add: sched t True step_qstate_Sync)
      from IH [of "tr @ [Started l, completion rs]" cs] show ?thesis
        unfolding s ev by (auto simp: sched dest: append_prefixD)
    next
      case False
      show ?thesis
      proof (cases cs)
        case Nil
        then show ?thesis
          using False by (simp add: sched step_qstate_defer qwait_def ev [unfolded t] t)
      next
        case cs: (Cons c2 cs2)
        have s: "exec sched (qstate L (t # ts) tr)
                   = exec cs2 (qstate L ts (tr @ [Started l, completion rs]))"
          using q False by (simp add: sched cs t step_qstate_defer step_qwait)
        from IH [of "tr @ [Started l, completion rs]" cs2] show ?thesis
          unfolding s ev by (auto simp: sched cs dest: append_prefixD)
      qed
    qed
  qed
qed









section \<open>The concurrent orchestrator\<close>

lemma emits_simps [simp]:
  "emits [] = []"
  "emits (tr @ tr') = emits tr @ emits tr'"
  "emits (Started l # tr) = emits tr"
  "emits (Emit n a # tr) = Emit n a # emits tr"
  "emits (Fired # tr) = emits tr"
  by (simp_all add: emits_def)

lemma starts_simps [simp]:
  "starts [] = []"
  "starts (tr @ tr') = starts tr @ starts tr'"
  "starts (Started l # tr) = l # starts tr"
  "starts (Emit n a # tr) = starts tr"
  "starts (Fired # tr) = starts tr"
  by (simp_all add: starts_def)

lemma emits_completion [simp]: "emits (completion rs # tr) = completion rs # emits tr"
  by (cases rs) (simp_all add: completion_def)

lemma starts_completion [simp]: "starts (completion rs # tr) = starts tr"
  by (cases rs) (simp_all add: completion_def)




lemma size_completions [simp]: "size (completions ts) = length ts"
  by (simp add: completions_def)






























section \<open>What both orchestrators emit, and when\<close>

lemma heard_emit: "heard s \<Longrightarrow> heard (emit n a s)"
  by (auto simp: heard_def emit_def)

lemma heard_callback: "heard s \<Longrightarrow> heard (callback rs s)"
  by (auto simp: heard_def callback_def emit_apply_def emit_def factory_def it_next_def
      split: orchestrator.splits list.splits)

lemma heard_run_act: "heard s \<Longrightarrow> heard (run_act a s)"
  using heard_callback [of s "snd a"]
  by (auto simp: run_act_def heard_def split: mode.splits)

lemma heard_fold: "heard s \<Longrightarrow> heard (fold run_act as s)"
  by (induction as arbitrary: s) (simp_all add: heard_run_act)

lemma heard_run_task: "heard s \<Longrightarrow> heard (run_task t s)"
  unfolding run_task_def by (rule heard_fold) (auto simp: heard_def)

lemma heard_mq: "heard (s\<lparr>mq := q\<rparr>) = heard s"
  by (simp add: heard_def)

lemma heard_pending: "heard (s\<lparr>pending := q\<rparr>) = heard s"
  by (simp add: heard_def)

lemma heard_step: "heard s \<Longrightarrow> step c s = Some s' \<Longrightarrow> heard s'"
  by (auto simp: step_def run_job_def heard_mq heard_pending heard_emit heard_callback
      heard_run_task Let_def split: list.splits job.splits option.splits if_splits)

lemma heard_exec: "heard s \<Longrightarrow> heard (exec sched s)"
  by (induction sched arbitrary: s) (auto split: option.splits dest: heard_step)

lemma heard_iff: "heard s \<Longrightarrow> Fired \<in> set (trace s) \<longleftrightarrow> (\<exists>a. Emit END_EVENT a \<in> set (trace s))"
  by (auto simp: heard_def split: if_splits)

lemma heard_init: "trace s = [] \<Longrightarrow> heard (once_END s)"
  by (simp add: heard_def once_END_def)

lemma trace_asyncQueue: "trace (asyncQueue fs) = []"
  by (simp add: asyncQueue_qstate)

lemma trace_asyncParallel: "trace (asyncParallel fs) = []"
  by (cases fs) (simp_all add: asyncParallel_def it_next_def)

lemma mq_asyncQueue: "mq (asyncQueue fs) = [TaskJob (case fs of [] \<Rightarrow> None | t # ts \<Rightarrow> Some t)]"
  by (cases fs) (simp_all add: asyncQueue_def factory_def it_next_def)

lemma mq_asyncParallel: "mq (asyncParallel fs) = (if fs = [] then [EmitEndJob] else map FuncJob fs)"
  by (cases fs) (simp_all add: asyncParallel_def it_next_def)

text \<open>
  C10.  For every task list, the empty one included, neither asyncQueue nor asyncParallel
  has emitted anything when the call returns: no observation has been made, and the
  microtask queue holds the job from which the first emission can come.  So a listener
  that is attached with \<open>once(END_EVENT)\<close> right after the call misses nothing: in every
  run it has been called exactly when an END_EVENT has been emitted.
\<close>

theorem nothing_emitted_during_call:
  "trace (asyncQueue fs) = [] \<and> trace (asyncParallel fs) = []
   \<and> mq (asyncQueue fs) \<noteq> [] \<and> mq (asyncParallel fs) \<noteq> []
   \<and> (Fired \<in> set (trace (exec sched (once_END (asyncQueue fs))))
        \<longleftrightarrow> (\<exists>a. Emit END_EVENT a \<in> set (trace (exec sched (once_END (asyncQueue fs))))))
   \<and> (Fired \<in> set (trace (exec sched (once_END (asyncParallel fs))))
        \<longleftrightarrow> (\<exists>a. Emit END_EVENT a \<in> set (trace (exec sched (once_END (asyncParallel fs))))))"
  using heard_iff [OF heard_exec [OF heard_init [OF trace_asyncQueue]], of sched fs]
        heard_iff [OF heard_exec [OF heard_init [OF trace_asyncParallel]], of sched fs]
  by (simp add: trace_asyncQueue trace_asyncParallel mq_asyncQueue mq_asyncParallel)

lemma allowed_completion: "from_task fs rs \<Longrightarrow> allowed fs (completion rs)"
  by (auto simp: allowed_def completion_def split: list.splits)

lemma trace_emit: "trace (emit n a s) = trace s @ Emit n a # (if n = END_EVENT \<and> onceEND s then [Fired] else [])"
  by (simp add: emit_def)

lemma named_emit_END: "named fs s \<Longrightarrow> named fs (emit END_EVENT [] s)"
  by (auto simp: named_def emit_def allowed_def)

lemma named_emit_apply: "named fs s \<Longrightarrow> from_task fs rs \<Longrightarrow> named fs (emit_apply rs s)"
  using allowed_completion [of fs rs]
  by (auto simp: named_def emit_apply_def emit_def completion_def allowed_def split: list.splits)

lemma named_it_next: "named fs s \<Longrightarrow> named fs (snd (it_next s)) \<and> (\<forall>t. fst (it_next s) = Some t \<longrightarrow> t \<in> set fs)"
  by (auto simp: named_def it_next_def split: list.splits)

lemma named_factory: "named fs s \<Longrightarrow> named fs (factory s)"
  using named_it_next [of fs s]
  by (auto simp: factory_def named_def job_ok_def split: prod.splits option.splits)

lemma named_callback: "named fs s \<Longrightarrow> from_task fs rs \<Longrightarrow> named fs (callback rs s)"
  using named_it_next [of fs "emit_apply rs s"]
  by (auto simp: callback_def named_factory named_emit_apply named_emit_END
      split: orchestrator.splits prod.splits)

lemma named_run_act: "named fs s \<Longrightarrow> from_task fs (snd a) \<Longrightarrow> named fs (run_act a s)"
  using named_callback [of fs s "snd a"]
  by (auto simp: run_act_def named_def job_ok_def split: mode.splits)

lemma named_fold:
  "named fs s \<Longrightarrow> list_all (\<lambda>a. from_task fs (snd a)) as \<Longrightarrow> named fs (fold run_act as s)"
  by (induction as arbitrary: s) (simp_all add: named_run_act)

lemma named_run_task: "named fs s \<Longrightarrow> t \<in> set fs \<Longrightarrow> named fs (run_task t s)"
  unfolding run_task_def
  by (rule named_fold) (auto simp: named_def allowed_def from_task_def list_all_iff)

lemma named_step: "named fs s \<Longrightarrow> step c s = Some s' \<Longrightarrow> named fs s'"
proof (cases "mq s")
  case Nil
  assume n: "named fs s" and st: "step c s = Some s'"
  from st Nil have ne: "pending s \<noteq> []"
    by (auto simp: step_def split: if_splits)
  let ?i = "c mod length (pending s)"
  have i: "?i < length (pending s)" using ne by simp
  have 1: "from_task fs (pending s ! ?i)"
    using n i by (simp add: named_def list_all_length)
  have 2: "named fs (s\<lparr>pending := take ?i (pending s) @ drop (Suc ?i) (pending s)\<rparr>)"
    using n by (auto simp: named_def list_all_iff dest: in_set_takeD in_set_dropD)
  show ?thesis
    using st Nil ne named_callback [OF 2 1] by (simp add: step_def Let_def)
next
  case (Cons j js)
  assume n: "named fs s" and st: "step c s = Some s'"
  have 2: "named fs (s\<lparr>mq := js\<rparr>)" and j: "job_ok fs j"
    using n Cons by (auto simp: named_def)
  show ?thesis
    using st Cons j named_emit_END [OF 2] named_run_task [OF 2] named_callback [OF 2]
    by (auto simp: step_def run_job_def job_ok_def split: job.splits option.splits)
qed

lemma named_exec: "named fs s \<Longrightarrow> named fs (exec sched s)"
  by (induction sched arbitrary: s) (auto split: option.splits dest: named_step)

lemma named_asyncQueue: "named fs (asyncQueue fs)"
  by (cases fs) (auto simp: asyncQueue_def factory_def it_next_def named_def job_ok_def)

lemma named_asyncParallel: "named fs (asyncParallel fs)"
  by (cases fs) (auto simp: asyncParallel_def it_next_def named_def job_ok_def list_all_iff)

lemma emits_emit: "emits (trace (emit n a s)) = emits (trace s) @ [Emit n a]"
  by (simp add: emit_def)

lemma callback_first:
  "take (Suc (length (trace s))) (trace (callback rs s)) = trace s @ [completion rs]"
  by (cases rs; cases "iter s"; cases "orch s")
     (simp_all add: callback_def emit_apply_def emit_def factory_def it_next_def completion_def)

lemma callback_emits:
  "\<exists>Y. emits (trace (callback rs s)) = emits (trace s) @ completion rs # Y"
  by (cases rs; cases "iter s"; cases "orch s")
     (simp_all add: callback_def emit_apply_def emit_def factory_def it_next_def completion_def)

lemma fold_run_act_emits:
  "\<exists>Y. emits (trace (fold run_act as s)) = emits (trace s) @ Y
       \<and> subseq (map completion (map snd (filter (\<lambda>a. fst a = Sync) as))) Y"
proof (induction as arbitrary: s)
  case Nil
  show ?case by simp
next
  case (Cons a as)
  from Cons.IH [of "run_act a s"] obtain Y where
    Y: "emits (trace (fold run_act as (run_act a s))) = emits (trace (run_act a s)) @ Y"
       "subseq (map completion (map snd (filter (\<lambda>a. fst a = Sync) as))) Y"
    by blast
  show ?case
  proof (cases "fst a = Sync")
    case True
    from callback_emits [of "snd a" s] obtain Z where
      Z: "emits (trace (callback (snd a) s)) = emits (trace s) @ completion (snd a) # Z"
      by blast
    have "subseq (completion (snd a) # map completion (map snd (filter (\<lambda>a. fst a = Sync) as)))
            ((completion (snd a) # Z) @ Y)"
      using Y(2) by (simp add: list_emb_append2)
    moreover have "run_act a s = callback (snd a) s"
      using True by (simp add: run_act_def)
    ultimately show ?thesis
      using Y(1) Z True by (auto intro!: exI [of _ "(completion (snd a) # Z) @ Y"])
  next
    case False
    then have "trace (run_act a s) = trace s"
      by (cases "fst a") (simp_all add: run_act_def)
    with Y False show ?thesis by auto
  qed
qed

lemma run_task_emits:
  "\<exists>Y. emits (trace (run_task t s)) = emits (trace s) @ Y
       \<and> subseq (map completion (sync_results t)) Y"
  using fold_run_act_emits [of "acts t" "s\<lparr>trace := trace s @ [Started (label t)]\<rparr>"]
  by (simp add: run_task_def sync_results_def)

lemma step_emits:
  assumes "step c s = Some s'"
  shows "\<exists>Y. emits (trace s') = emits (trace s) @ Y \<and> subseq (map completion (turn_calls c s)) Y"
proof (cases "mq s")
  case Nil
  with assms have ne: "pending s \<noteq> []" by (auto simp: step_def split: if_splits)
  let ?i = "c mod length (pending s)"
  let ?s = "s\<lparr>pending := take ?i (pending s) @ drop (Suc ?i) (pending s)\<rparr>"
  have s': "s' = callback (pending s ! ?i) ?s"
    using assms Nil ne by (simp add: step_def Let_def)
  from callback_emits [of "pending s ! ?i" ?s] obtain Y where
    "emits (trace s') = emits (trace s) @ completion (pending s ! ?i) # Y"
    unfolding s' by auto
  then show ?thesis
    using Nil ne by (auto simp: turn_calls_def)
next
  case (Cons j js)
  let ?s = "s\<lparr>mq := js\<rparr>"
  have s': "s' = run_job j ?s"
    using assms Cons by (simp add: step_def)
  show ?thesis
  proof (cases j)
    case (TaskJob n)
    show ?thesis
    proof (cases n)
      case None
      then show ?thesis
        by (simp add: s' TaskJob run_job_def emits_emit turn_calls_def Cons)
    next
      case (Some t)
      with run_task_emits [of t ?s] show ?thesis
        by (simp add: s' TaskJob run_job_def turn_calls_def Cons)
    qed
  next
    case (FuncJob t)
    with run_task_emits [of t ?s] show ?thesis
      by (simp add: s' run_job_def turn_calls_def Cons)
  next
    case EmitEndJob
    then show ?thesis
      by (simp add: s' run_job_def emits_emit turn_calls_def Cons)
  next
    case (CallbackJob rs)
    from callback_emits [of rs ?s] obtain Y where
      "emits (trace s') = emits (trace s) @ completion rs # Y"
      unfolding s' CallbackJob by (auto simp: run_job_def)
    then show ?thesis
      by (auto simp: turn_calls_def Cons CallbackJob)
  qed
qed

lemma exec_emits:
  "\<exists>Y. emits (trace (exec sched s)) = emits (trace s) @ Y
       \<and> subseq (map completion (calls sched s)) Y"
proof (induction sched arbitrary: s)
  case Nil
  show ?case by simp
next
  case (Cons c cs)
  show ?case
  proof (cases "step c s")
    case None
    then show ?thesis by simp
  next
    case (Some s')
    from step_emits [OF Some] obtain Y where
      Y: "emits (trace s') = emits (trace s) @ Y" "subseq (map completion (turn_calls c s)) Y"
      by blast
    from Cons.IH [of s'] obtain Z where
      Z: "emits (trace (exec cs s')) = emits (trace s') @ Z" "subseq (map completion (calls cs s')) Z"
      by blast
    have "subseq (map completion (turn_calls c s) @ map completion (calls cs s')) (Y @ Z)"
      using Y(2) Z(2) by (rule list_emb_append_mono)
    with Y(1) Z(1) show ?thesis
      by (auto simp: Some intro!: exI [of _ "Y @ Z"])
  qed
qed

lemma calls_subseq:
  "trace s = [] \<Longrightarrow> subseq (map completion (calls sched s)) (emits (trace (exec sched s)))"
  using exec_emits [of sched s] by auto

text \<open>
  C9.  The continuation of either orchestrator first broadcasts the results it is passed:
  the event's name is the first result and its arguments are the other results (the name
  is \<open>undefined\<close> when there is no result).  In every run of asyncQueue and of
  asyncParallel the events of all invocations of the continuation are broadcast, in the
  order of the invocations.  Every event that is broadcast is either the aggregate
  END_EVENT (without arguments) or such an event of some task of the list.  Neither
  orchestrator emits DONE_EVENT of its own: when DONE_EVENT is broadcast, some task of
  the list has passed it as its first result, the event's arguments being the other
  results.
\<close>

theorem event_name_is_first_result:
  fixes fs :: "'l task list" and s :: "'l loop"
  shows "take (Suc (length (trace s))) (trace (callback (name # args) s))
           = trace s @ [Emit name args]
       \<and> take (Suc (length (trace s))) (trace (callback [] s)) = trace s @ [Emit Undefined []]
       \<and> subseq (map completion (calls sched (asyncQueue fs)))
                (emits (trace (exec sched (asyncQueue fs))))
       \<and> subseq (map completion (calls sched' (asyncParallel fs)))
                (emits (trace (exec sched' (asyncParallel fs))))
       \<and> (\<forall>n a. (Emit n a :: 'l obs) \<in> set (trace (exec sched (asyncQueue fs)))
                                      \<union> set (trace (exec sched' (asyncParallel fs))) \<longrightarrow>
            ((n = END_EVENT \<and> a = [])
             \<or> (\<exists>t\<in>set fs. \<exists>x\<in>set (acts t). completion (snd x) = (Emit n a :: 'l obs)))
            \<and> (n = DONE_EVENT \<longrightarrow> (\<exists>t\<in>set fs. \<exists>x\<in>set (acts t). snd x = DONE_EVENT # a)))"
proof -
  have safe: "((n = END_EVENT \<and> a = [])
             \<or> (\<exists>t\<in>set fs. \<exists>x\<in>set (acts t). completion (snd x) = (Emit n a :: 'l obs)))
            \<and> (n = DONE_EVENT \<longrightarrow> (\<exists>t\<in>set fs. \<exists>x\<in>set (acts t). snd x = DONE_EVENT # a))"
    if "(Emit n a :: 'l obs) \<in> set (trace (exec sched (asyncQueue fs)))
                                      \<union> set (trace (exec sched' (asyncParallel fs)))" for n a
  proof -
    have "allowed fs (Emit n a :: 'l obs)"
      using that named_exec [OF named_asyncQueue, of fs sched]
        named_exec [OF named_asyncParallel, of fs sched']
      by (auto simp: named_def list_all_iff)
    then consider "n = END_EVENT \<and> a = []"
      | rs where "from_task fs rs" and "completion rs = (Emit n a :: 'l obs)"
      by (auto simp: allowed_def)
    then show ?thesis
    proof cases
      case 1
      then show ?thesis by simp
    next
      case 2
      then obtain t x where ta: "t \<in> set fs" "x \<in> set (acts t)" "snd x = rs"
        by (auto simp: from_task_def)
      have "n = DONE_EVENT \<longrightarrow> rs = DONE_EVENT # a"
        using 2(2) by (cases rs) (auto simp: completion_def)
      with ta 2(2) show ?thesis by blast
    qed
  qed
  have 1: "take (Suc (length (trace s))) (trace (callback (name # args) s))
           = trace s @ [Emit name args]"
    and 2: "take (Suc (length (trace s))) (trace (callback [] s)) = trace s @ [Emit Undefined []]"
    using callback_first [of s "name # args"] callback_first [of s "[]"]
    by (simp_all add: completion_def)
  have 3: "subseq (map completion (calls sched (asyncQueue fs)))
                (emits (trace (exec sched (asyncQueue fs))))"
    by (rule calls_subseq) (rule trace_asyncQueue)
  have 4: "subseq (map completion (calls sched' (asyncParallel fs)))
                (emits (trace (exec sched' (asyncParallel fs))))"
    by (rule calls_subseq) (rule trace_asyncParallel)
  from 1 2 3 4 safe show ?thesis by blast
qed

theorem event_name_is_first_result_witness:
  "calls [0, 0, 0, 0] (asyncQueue tasks_DE) = [[DONE_EVENT, Num 7], [Num 1, Num 2]]
   \<and> trace (exec [0, 0, 0, 0] (asyncQueue tasks_DE))
       = [Started ''D'', Emit DONE_EVENT [Num 7], Started ''E'', Emit (Num 1) [Num 2],
          Emit END_EVENT []]
   \<and> calls [0, 0, 0] (asyncParallel tasks_DE) = [[DONE_EVENT, Num 7], [Num 1, Num 2]]
   \<and> trace (exec [0, 0, 0] (asyncParallel tasks_DE))
       = [Started ''D'', Emit DONE_EVENT [Num 7], Started ''E'', Emit (Num 1) [Num 2],
          Emit END_EVENT []]
   \<and> subseq [Emit DONE_EVENT [Num 7], Emit (Num 1) [Num 2]]
        (emits (trace (exec [0, 0, 0, 0] (asyncQueue tasks_DE))))
   \<and> subseq [Emit DONE_EVENT [Num 7], Emit (Num 1) [Num 2]]
        (emits (trace (exec [0, 0, 0] (asyncParallel tasks_DE))))
   \<and> (\<exists>t\<in>set tasks_DE. \<exists>x\<in>set (acts t). snd x = DONE_EVENT # [Num 7])"
proof -
  have 1: "calls [0, 0, 0, 0] (asyncQueue tasks_DE) = [[DONE_EVENT, Num 7], [Num 1, Num 2]]"
    and 2: "trace (exec [0, 0, 0, 0] (asyncQueue tasks_DE))
       = [Started ''D'', Emit DONE_EVENT [Num 7], Started ''E'', Emit (Num 1) [Num 2],
          Emit END_EVENT []]"
    and 3: "calls [0, 0, 0] (asyncParallel tasks_DE) = [[DONE_EVENT, Num 7], [Num 1, Num 2]]"
    and 4: "trace (exec [0, 0, 0] (asyncParallel tasks_DE))
       = [Started ''D'', Emit DONE_EVENT [Num 7], Started ''E'', Emit (Num 1) [Num 2],
          Emit END_EVENT []]"
    by code_simp+
  have 5: "map completion [[DONE_EVENT, Num 7], [Num 1, Num 2]]
             = ([Emit DONE_EVENT [Num 7], Emit (Num 1) [Num 2]] :: string obs list)"
    by (simp add: completion_def)
  note T = event_name_is_first_result [where fs = tasks_DE and sched = "[0, 0, 0, 0]"
      and sched' = "[0, 0, 0]"]
  from T have 6: "subseq (map completion (calls [0, 0, 0, 0] (asyncQueue tasks_DE)))
        (emits (trace (exec [0, 0, 0, 0] (asyncQueue tasks_DE))))"
    and 7: "subseq (map completion (calls [0, 0, 0] (asyncParallel tasks_DE)))
        (emits (trace (exec [0, 0, 0] (asyncParallel tasks_DE))))"
    by blast+
  have "(Emit DONE_EVENT [Num 7] :: string obs) \<in> set (trace (exec [0, 0, 0, 0] (asyncQueue tasks_DE)))
           \<union> set (trace (exec [0, 0, 0] (asyncParallel tasks_DE)))"
    unfolding 2 4 by simp
  with T have 8: "\<exists>t\<in>set tasks_DE. \<exists>x\<in>set (acts t). snd x = DONE_EVENT # [Num 7]"
    by blast
  from 1 2 3 4 6 [unfolded 1 5] 7 [unfolded 3 5] 8 show ?thesis
    by blast
qed


section \<open>Scanning a chunk\<close>

lemma NEW_FILE_METHOD_malformed:
  assumes "malformed chunk st"
  shows "NEW_FILE_METHOD fs chunk st = Inl TypeError"
  using assms
  by (auto simp: malformed_def header_line_def NEW_FILE_METHOD_def splitBuffer_def Let_def
      split: option.splits prod.splits if_splits)

lemma scan_loop_malformed:
  assumes "start \<noteq> -1"
    and "SEP_compare chunk (start + int (length bd)) (start + int (length bd) + int (length SEP)) = Inr False"
    and "malformed chunk (start + int (length bd) + int (length EOL))"
  shows "scan_loop bd chunk fs queue start fin = Some (Inl TypeError)"
  using assms by (subst scan_loop.simps) (simp add: NEW_FILE_METHOD_malformed)

text \<open>The first call of the loop gives what a call in any state it visits gives.\<close>

lemma visits_result:
  "visits bd chunk fs0 fs queue start fin \<Longrightarrow>
   scan_loop bd chunk fs0 [] (indexOf chunk bd 0) 0 = scan_loop bd chunk fs queue start fin"
proof (induction rule: visits.induct)
  case first
  show ?case by simp
next
  case (again fs queue start fin fs' fin')
  have "scan_loop bd chunk fs queue start fin
      = scan_loop bd chunk fs'
          (if length fs > 0 then queue @ [\<lparr>target = length fs - 1, w_from = fin, w_upto = start\<rparr>]
           else queue) (indexOf chunk bd fin') fin'"
    using again.hyps(2-4) by (subst scan_loop.simps) (simp add: Let_def)
  with again.IH show ?case by simp
qed

text \<open>
  C7.  Whenever the scan loop of \<open>_write\<close> comes to a boundary that is not followed by the
  terminal marker, and the first header line after it does not match the file name
  pattern or the second does not match the content type pattern, the loop is left by an
  exception and \<open>_write\<close> throws it; there is no error value.  When the two bytes behind
  the boundary are there, the exception is the TypeError of indexing the match result
  \<open>null\<close>; when the chunk ends before them, it is the RangeError of \<open>SEP.compare\<close>.
\<close>

theorem header_mismatch_throws:
  assumes "visits bd chunk fs0 fs queue start fin"
    and "start \<noteq> -1"
    and "SEP_compare chunk (start + int (length bd)) (start + int (length bd) + int (length SEP))
           \<noteq> Inr True"
    and "malformed chunk (start + int (length bd) + int (length EOL))"
  shows "(\<exists>e. scan_loop bd chunk fs queue start fin = Some (Inl e)
            \<and> HttpForm_write accept \<lparr>boundary = bd, files = fs0\<rparr> chunk = Some (Inl e))
       \<and> (SEP_compare chunk (start + int (length bd))
              (start + int (length bd) + int (length SEP)) = Inr False \<longrightarrow>
            scan_loop bd chunk fs queue start fin = Some (Inl TypeError)
            \<and> HttpForm_write accept \<lparr>boundary = bd, files = fs0\<rparr> chunk = Some (Inl TypeError))"
proof (cases "SEP_compare chunk (start + int (length bd))
                (start + int (length bd) + int (length SEP))")
  case (Inl e)
  with assms(2) have "scan_loop bd chunk fs queue start fin = Some (Inl e)"
    by (subst scan_loop.simps) simp
  with visits_result [OF assms(1)] Inl show ?thesis
    by (simp add: HttpForm_write_def write_scan_def)
next
  case (Inr t)
  with assms(3) have f: "SEP_compare chunk (start + int (length bd))
                (start + int (length bd) + int (length SEP)) = Inr False"
    by simp
  from scan_loop_malformed [OF assms(2) f assms(4)] visits_result [OF assms(1)] show ?thesis
    by (simp add: HttpForm_write_def write_scan_def)
qed

lemma bad_second_facts:
  "indexOf bad_second_chunk ''--B'' 0 = 0"
  "SEP_compare bad_second_chunk 3 5 = Inr False"
  "NEW_FILE_METHOD [] bad_second_chunk 5
     = Inr ([\<lparr>filename = ascii ''a.txt'', contentType = ascii ''text/plain''\<rparr>], 98)"
  "indexOf bad_second_chunk ''--B'' 98 = 105"
  "SEP_compare bad_second_chunk 108 110 = Inr False"
  "malformed bad_second_chunk 110"
  by code_simp+

lemma bad_second_visits:
  "visits ''--B'' bad_second_chunk []
     [\<lparr>filename = ascii ''a.txt'', contentType = ascii ''text/plain''\<rparr>] [] 105 98"
proof -
  have "visits ''--B'' bad_second_chunk [] [] [] 0 0"
    using visits.first [of "''--B''" bad_second_chunk "[]"] by (simp add: bad_second_facts)
  from visits.again [OF this, of "[\<lparr>filename = ascii ''a.txt'', contentType = ascii ''text/plain''\<rparr>]" 98]
  show ?thesis
    by (simp add: bad_second_facts SEP_def EOL_def)
qed

text \<open>The lines are decoded before the patterns are applied: U+2028 in a file name ends
  the run of \<open>.\<close>, so the first pattern does not match; U+00A0 behind the closing quote is
  white space, so it does.\<close>

lemma decoded_lines:
  "toString (''a'' @ [CHR 0xC2, CHR 0xA0, CHR 0xE2, CHR 0x80, CHR 0xA8] @ ''b'') 0 7
     = [0x61, 0xA0, 0x2028, 0x62]"
  "toString [CHR 0xF0, CHR 0x9F, CHR 0x98, CHR 0x80] 0 4 = [0xD83D, 0xDE00]"
  "toString [CHR 0xE2, CHR 0x80, CHR 0x41, CHR 0xC0, CHR 0x80] 0 5 = [0xFFFD, 0x41, 0xFFFD, 0xFFFD]"
  by code_simp+

lemma line_separator_facts:
  "indexOf line_separator_chunk ''--B'' 0 = 0"
  "SEP_compare line_separator_chunk 3 5 = Inr False"
  "malformed line_separator_chunk 5"
  by code_simp+

lemma no_break_space_scan:
  "write_scan form_B no_break_space_chunk =
     Some (Inr (\<lparr>boundary = ''--B'',
                  files = [\<lparr>filename = ascii ''a'', contentType = ascii ''text/plain''\<rparr>]\<rparr>,
          [\<lparr>target = 0, w_from = 96, w_upto = 103\<rparr>]))"
  by code_simp

theorem header_mismatch_throws_witness:
  "malformed bad_second_chunk 110
   \<and> HttpForm_write room form_B bad_second_chunk = Some (Inl TypeError)
   \<and> malformed line_separator_chunk 5
   \<and> HttpForm_write room form_B line_separator_chunk = Some (Inl TypeError)"
proof -
  from header_mismatch_throws [OF bad_second_visits, of room]
  have 1: "HttpForm_write room form_B bad_second_chunk = Some (Inl TypeError)"
    by (simp add: bad_second_facts SEP_def EOL_def form_B_def)
  have "visits ''--B'' line_separator_chunk [] [] [] 0 0"
    using visits.first [of "''--B''" line_separator_chunk "[]"] by (simp add: line_separator_facts)
  from header_mismatch_throws [OF this, of room]
  have 2: "HttpForm_write room form_B line_separator_chunk = Some (Inl TypeError)"
    by (simp add: line_separator_facts SEP_def EOL_def form_B_def)
  from 1 2 bad_second_facts(6) line_separator_facts(3) show ?thesis
    by blast
qed

lemma scan_loop_no_boundary: "scan_loop bd chunk fs queue (-1) fin = Some (Inr (fs, queue, fin))"
  by (subst scan_loop.simps) simp

text \<open>
  C8.  For a chunk without an occurrence of the boundary: when \<open>files\<close> is empty and the
  chunk holds at least one byte, \<open>_write\<close> throws a TypeError (the remainder of the chunk
  is to be written to \<open>this.lastFile\<close>, which is \<open>undefined\<close>); when a file is there or the
  chunk is empty, \<open>_write\<close> returns normally, leaving \<open>files\<close> as it is.  So on chunks
  without the boundary \<open>_write\<close> is free of exceptions exactly when a file is active or
  the chunk has no byte.
\<close>

theorem preamble_chunk_throws:
  assumes "indexOf chunk (boundary form) 0 = -1"
  shows "(files form = [] \<and> chunk \<noteq> [] \<longrightarrow>
            HttpForm_write accept form chunk = Some (Inl TypeError))
       \<and> (files form \<noteq> [] \<or> chunk = [] \<longrightarrow>
            (\<exists>w. HttpForm_write accept form chunk = Some (Inr (form, w))))"
  using assms by (simp add: HttpForm_write_def write_scan_def scan_loop_no_boundary)

theorem preamble_chunk_throws_witness:
  "indexOf ''preamble'' (boundary form_BOUNDARY) 0 = -1 \<and> files form_BOUNDARY = []
   \<and> HttpForm_write room form_BOUNDARY ''preamble'' = Some (Inl TypeError)"
  using preamble_chunk_throws [of "''preamble''" form_BOUNDARY room]
  by (simp add: form_BOUNDARY_def indexOf_def)

text \<open>
  The chunk without a byte holds no occurrence of the boundary; written while \<open>files\<close> is
  empty it passes the test \<open>end < chunk.length\<close>, the queue stays empty and \<open>_write\<close>
  returns without an exception.
\<close>

theorem empty_chunk_accepted:
  "indexOf [] (boundary form_BOUNDARY) 0 = -1 \<and> files form_BOUNDARY = []
   \<and> HttpForm_write room form_BOUNDARY [] = Some (Inr (form_BOUNDARY, once_END (asyncQueue [])))
   \<and> HttpForm_write room form_BOUNDARY [] \<noteq> Some (Inl TypeError)"
  by (simp add: HttpForm_write_def write_scan_def scan_loop_no_boundary write_tasks_def
      form_BOUNDARY_def indexOf_def)


section \<open>The write tasks of a chunk\<close>







lemma task_events_write [simp]:
  "task_events (HttpFile_write ok f d) = [Started (Write f d), Emit Undefined []]"
  by (simp add: task_events_def HttpFile_write_def result_def completion_def)



lemma written_append [simp]: "written f (tr @ tr') = written f tr @ written f tr'"
  by (induction f tr rule: written.induct) simp_all







text \<open>One pass through the loop body, in terms of the queue after its first statement.\<close>

lemma scan_loop_push:
  "start \<noteq> -1 \<Longrightarrow>
   scan_loop bd chunk fs queue start fin =
     (case SEP_compare chunk (start + int (length bd))
             (start + int (length bd) + int (length SEP)) of
        Inl e \<Rightarrow> Some (Inl e)
      | Inr terminal \<Rightarrow>
         (if terminal then Some (Inr (fs, queue_push fs queue start fin, int (length chunk)))
          else
           (case NEW_FILE_METHOD fs chunk (start + int (length bd) + int (length EOL)) of
              Inl e \<Rightarrow> Some (Inl e)
            | Inr (fs', fin') \<Rightarrow>
                scan_loop bd chunk fs' (queue_push fs queue start fin)
                  (indexOf chunk bd fin') fin')))"
  unfolding queue_push_def by (subst scan_loop.simps) (simp add: Let_def)



section \<open>A header block that the chunk cuts short\<close>

text \<open>
  When the chunk ends after the second header line, the third value of the line generator
  is its last view, whose end is -1; \<open>NEW_FILE_METHOD\<close> then returns the cursor 1, and a
  boundary that does not stand at offset 0 is found again and again: the loop of \<open>_write\<close>
  does not end.
\<close>

lemma cut_short_facts:
  "indexOf cut_short_chunk ''--B'' 0 = 1"
  "indexOf cut_short_chunk ''--B'' 1 = 1"
  "SEP_compare cut_short_chunk 4 6 = Inr False"
  "yields 3 (splitBuffer cut_short_chunk EOL 6)
     = [\<lparr>sr_buf = cut_short_chunk, sr_start = 6, sr_end = 18\<rparr>,
        \<lparr>sr_buf = cut_short_chunk, sr_start = 20, sr_end = 23\<rparr>,
        \<lparr>sr_buf = cut_short_chunk, sr_start = 25, sr_end = -1\<rparr>]"
  by code_simp+

lemma cut_short_new_file:
  "NEW_FILE_METHOD fs cut_short_chunk 6 = Inr (fs @ [\<lparr>filename = ascii ''a'', contentType = ascii ''a/b''\<rparr>], 1)"
proof -
  have "NEW_FILE_METHOD [] cut_short_chunk 6 = Inr ([\<lparr>filename = ascii ''a'', contentType = ascii ''a/b''\<rparr>], 1)"
    by code_simp
  then show ?thesis
    by (auto simp: NEW_FILE_METHOD_def Let_def EOL_def split: prod.splits option.splits)
qed

lemma cut_short_never_returns:
  assumes "scan_loop bd chunk fs queue start fin = Some y"
  shows "\<not> (bd = ''--B'' \<and> chunk = cut_short_chunk \<and> start = 1)"
  using assms
proof (induction bd chunk fs queue start fin y rule: scan_loop.raw_induct [rotated, consumes 1])
  case (1 scan_loop bd chunk fs queue start fin y)
  show ?case
  proof
    assume a: "bd = ''--B'' \<and> chunk = cut_short_chunk \<and> start = 1"
    then have "\<exists>q. scan_loop ''--B'' cut_short_chunk (fs @ [\<lparr>filename = ascii ''a'', contentType = ascii ''a/b''\<rparr>]) q 1 1 = Some y"
      using "1.hyps" by (simp add: cut_short_facts cut_short_new_file SEP_def EOL_def Let_def) blast
    then show False using "1.IH" by blast
  qed
qed

lemma header_cut_short_loops: "write_scan form_B cut_short_chunk = None"
proof -
  have "scan_loop ''--B'' cut_short_chunk [] [] 1 0 = None"
    using cut_short_never_returns [of "''--B''" cut_short_chunk "[]" "[]" 1 0] by (cases "scan_loop ''--B'' cut_short_chunk [] [] 1 0") auto
  then show ?thesis
    by (simp add: write_scan_def form_B_def cut_short_facts)
qed


section \<open>The scenarios\<close>

lemma scan_single: "write_scan form_B single_file_chunk =
   Some (Inr (\<lparr>boundary = ''--B'', files = [\<lparr>filename = ascii ''a.txt'', contentType = ascii ''text/plain''\<rparr>]\<rparr>,
        [\<lparr>target = 0, w_from = 98, w_upto = 105\<rparr>]))"
  by code_simp

lemma wdata_single: "wdata single_file_chunk \<lparr>target = 0, w_from = 98, w_upto = 105\<rparr> = ''hello'' @ EOL"
  by code_simp

text \<open>
  C1.  The single-file scenario: one chunk with the boundary, the three header lines for
  file name a.txt and content type text/plain, the bytes hello, CR LF and the terminal
  boundary.  \<open>_write\<close> makes one file with that name and type and one write task; when the
  chunk is processed the stream of the file has been handed the seven bytes
  hello CR LF, not the five bytes hello: the line end before the boundary is written to
  the file.  \<open>_final\<close> then closes the stream and its callback is called.
\<close>

theorem single_file_bytes:
  "HttpForm_write accept form_B single_file_chunk
     = Some (Inr (\<lparr>boundary = ''--B'',
                    files = [\<lparr>filename = ascii ''a.txt'', contentType = ascii ''text/plain''\<rparr>]\<rparr>,
                  once_END (asyncQueue [HttpFile_write (accept 0) 0 (''hello'' @ EOL)])))
   \<and> trace (exec (c1 # c2 # c3 # cs)
         (once_END (asyncQueue [HttpFile_write (accept 0) 0 (''hello'' @ EOL)])))
       = [Started (Write 0 (''hello'' @ EOL)), Emit Undefined [], Emit END_EVENT [], Fired]
   \<and> written 0 (trace (exec (c1 # c2 # c3 # cs)
         (once_END (asyncQueue [HttpFile_write (accept 0) 0 (''hello'' @ EOL)])))) = ''hello'' @ EOL
   \<and> ''hello'' @ EOL \<noteq> ''hello''
   \<and> trace (exec (d1 # d2 # ds)
         (HttpForm_final \<lparr>boundary = ''--B'',
            files = [\<lparr>filename = ascii ''a.txt'', contentType = ascii ''text/plain''\<rparr>]\<rparr>))
       = [Started (Close 0), Emit Undefined [], Emit END_EVENT [], Fired]"
proof -
  let ?t = "HttpFile_write (accept 0) 0 (''hello'' @ EOL)"
  have "\<forall>t\<in>set [?t]. single t \<and> (True \<longrightarrow> quiet t)"
    by (simp add: HttpFile_write_def single_def quiet_def)
  from queue_run [OF this, of "[]" "c1 # c2 # c3 # cs"]
  have run: "exec (c1 # c2 # c3 # cs) (once_END (asyncQueue [?t]))
           = qfinal [Started (Write 0 (''hello'' @ EOL)), Emit Undefined [], Emit END_EVENT [], Fired]"
    by (simp add: once_asyncQueue_qstate queue_trace_def task_events_def end_events_def
        HttpFile_write_def result_def completion_def)
  have scan: "HttpForm_write accept form_B single_file_chunk
     = Some (Inr (\<lparr>boundary = ''--B'',
                    files = [\<lparr>filename = ascii ''a.txt'', contentType = ascii ''text/plain''\<rparr>]\<rparr>,
                  once_END (asyncQueue [?t])))"
    by (simp add: HttpForm_write_def scan_single write_tasks_def wdata_single)
  have fin: "exec (d1 # d2 # ds)
         (HttpForm_final \<lparr>boundary = ''--B'',
            files = [\<lparr>filename = ascii ''a.txt'', contentType = ascii ''text/plain''\<rparr>]\<rparr>)
       = \<lparr>orch = Parallel, iter = [], mq = [], pending = [], onceEND = False,
          trace = [Started (Close 0), Emit Undefined [], Emit END_EVENT [], Fired]\<rparr>"
    by (simp add: HttpForm_final_def HttpFile_close_def asyncParallel_def it_next_def once_END_def
        step_def run_job_def run_task_def run_act_def callback_def emit_apply_def emit_def
        exec_idle idle_def)
  show ?thesis
    unfolding run fin using scan by (simp add: EOL_def)
qed

text \<open>
  C3.  splitBuffer on the buffer a CR LF b with the separator CR LF yields two views: the
  view [0, 1) before the separator, and a last view with start 3 and end -1.  The end of
  the last view is not the length 4 of the buffer, and the view decodes to the empty
  string, not to b.
\<close>

theorem splitBuffer_final_view:
  "yields 3 (splitBuffer (''a'' @ EOL @ ''b'') EOL 0)
     = [\<lparr>sr_buf = ''a'' @ EOL @ ''b'', sr_start = 0, sr_end = 1\<rparr>,
        \<lparr>sr_buf = ''a'' @ EOL @ ''b'', sr_start = 3, sr_end = -1\<rparr>]
   \<and> map SplitResult_toString (yields 3 (splitBuffer (''a'' @ EOL @ ''b'') EOL 0)) = [ascii ''a'', []]
   \<and> int (length (''a'' @ EOL @ ''b'')) = 4"
  by code_simp

text \<open>
  C6.  The body \<open>--BOUNDARY--\<close> in one chunk, for the boundary parameter BOUNDARY:
  \<open>_write\<close> returns normally with \<open>files\<close> empty and an empty queue; after one turn of the
  event loop END_EVENT has been emitted and the chunk's callback called; \<open>_final\<close> closes
  no stream and its callback is called after one turn as well.  At no moment of either
  run has anything been written to a stream.
\<close>

theorem empty_body_completes:
  "HttpForm_new ''multipart/form-data; boundary=BOUNDARY'' = Inr form_BOUNDARY
   \<and> HttpForm_write accept form_BOUNDARY ''--BOUNDARY--''
       = Some (Inr (form_BOUNDARY, once_END (asyncQueue [])))
   \<and> files form_BOUNDARY = []
   \<and> trace (exec (c # cs) (once_END (asyncQueue ([] :: io task list)))) = [Emit END_EVENT [], Fired]
   \<and> idle (exec (c # cs) (once_END (asyncQueue ([] :: io task list))))
   \<and> trace (exec (c' # cs') (HttpForm_final form_BOUNDARY)) = [Emit END_EVENT [], Fired]
   \<and> idle (exec (c' # cs') (HttpForm_final form_BOUNDARY))
   \<and> written f (trace (exec sched (once_END (asyncQueue ([] :: io task list))))) = []
   \<and> written f (trace (exec sched' (HttpForm_final form_BOUNDARY))) = []"
proof -
  have new: "HttpForm_new ''multipart/form-data; boundary=BOUNDARY'' = Inr form_BOUNDARY"
    by code_simp
  have scan: "write_scan form_BOUNDARY ''--BOUNDARY--'' = Some (Inr (form_BOUNDARY, []))"
    by code_simp
  have w: "exec (c # cs) (once_END (asyncQueue ([] :: io task list)))
             = qfinal [Emit END_EVENT [], Fired]" for c cs
    by (simp add: once_asyncQueue_qstate step_qstate_Nil exec_idle end_events_def)
  have f: "exec (c' # cs') (HttpForm_final form_BOUNDARY)
             = \<lparr>orch = Parallel, iter = [], mq = [], pending = [], onceEND = False,
                trace = [Emit END_EVENT [], Fired]\<rparr>" for c' cs'
    by (simp add: HttpForm_final_def form_BOUNDARY_def asyncParallel_def it_next_def once_END_def
        step_def run_job_def emit_def exec_idle idle_def)
  have w0: "written f (trace (exec sched (once_END (asyncQueue ([] :: io task list))))) = []"
  proof (cases sched)
    case Nil
    then show ?thesis by (simp add: once_asyncQueue_qstate)
  next
    case (Cons a as)
    show ?thesis unfolding Cons w by simp
  qed
  have f0: "written f (trace (exec sched' (HttpForm_final form_BOUNDARY))) = []"
  proof (cases sched')
    case Nil
    then show ?thesis
      by (simp add: HttpForm_final_def form_BOUNDARY_def asyncParallel_def it_next_def
          once_END_def)
  next
    case (Cons a as)
    show ?thesis unfolding Cons f by simp
  qed
  show ?thesis
    unfolding w f using new scan w0 f0
    by (simp add: HttpForm_write_def write_tasks_def form_BOUNDARY_def idle_def qfinal_def)
qed

end
